theory Spec2Isabelle
  imports Main "HOL-Library.Word"
begin

unbundle bit_operations_syntax

section \<open>Machine types and memory\<close>

text \<open>
  The decoders of \<^verbatim>\<open>extract_helper.c\<close> work on raw buffers. Input arrays are lists; a
  read or a write past the end of a list is undefined behaviour in C and is the value
  \<open>None\<close> here. Fixed-width integers are words, so every wrap-around of the C arithmetic
  is the wrap-around of the word type. \<open>size_t\<close> is taken to be 64 bits wide (LP64 and
  LLP64 platforms). Loop counters that are bounded by a literal constant are natural
  numbers and enter machine expressions through \<open>of_nat\<close>.
\<close>

type_synonym u8 = "8 word"
type_synonym u16 = "16 word"
type_synonym u32 = "32 word"
type_synonym u64 = "64 word"
type_synonym size_t = "64 word"

text \<open>\<^verbatim>\<open>#define NIBBLE_LO(x) ((uint32_t)((x) & 0xf))\<close> and
  \<^verbatim>\<open>#define NIBBLE_HI(x) ((uint32_t)(((x) >> 4) & 0xf))\<close>.\<close>

definition NIBBLE_LO :: "u8 \<Rightarrow> u32" where
  "NIBBLE_LO x = ucast (x AND 0xf)"

definition NIBBLE_HI :: "u8 \<Rightarrow> u32" where
  "NIBBLE_HI x = ucast (drop_bit 4 x AND 0xf)"

text \<open>\<^verbatim>\<open>blockCount[i]++\<close> on a histogram of 64-bit counters.\<close>

definition incr :: "u64 list \<Rightarrow> nat \<Rightarrow> u64 list option" where
  "incr blockCount i =
     (if i < length blockCount then Some (blockCount[i := blockCount ! i + 1]) else None)"

text \<open>A counted \<^verbatim>\<open>for\<close> loop over the given counter values, threading the state and
  stopping at the first undefined step.\<close>

fun for_each :: "nat list \<Rightarrow> (nat \<Rightarrow> 's \<Rightarrow> 's option) \<Rightarrow> 's \<Rightarrow> 's option" where
  "for_each [] body s = Some s"
| "for_each (i # is) body s =
     (case body i s of None \<Rightarrow> None | Some s' \<Rightarrow> for_each is body s')"

section \<open>\<^verbatim>\<open>dsci_v0\<close>\<close>

text \<open>\<^verbatim>\<open>const size_t idLim = 256 * 16;\<close>\<close>

definition v0_idLim :: size_t where
  "v0_idLim = 256 * 16"

text \<open>The body of the inner loop of \<^verbatim>\<open>dsci_v0\<close>, for the counters \<open>xz\<close> and \<open>y\<close>.\<close>

definition v0_bid1 :: "u8 list \<Rightarrow> u8 list \<Rightarrow> nat \<Rightarrow> u32" where
  "v0_bid1 blocks metadata idx =
     push_bit 4 (ucast (blocks ! (idx + 0)) :: u32) OR NIBBLE_LO (metadata ! (idx div 2))"

definition v0_bid2 :: "u8 list \<Rightarrow> u8 list \<Rightarrow> nat \<Rightarrow> u32" where
  "v0_bid2 blocks metadata idx =
     push_bit 4 (ucast (blocks ! (idx + 1)) :: u32) OR NIBBLE_HI (metadata ! (idx div 2))"

definition v0_body ::
  "u8 list \<Rightarrow> u8 list \<Rightarrow> nat \<Rightarrow> nat \<Rightarrow> u64 list \<Rightarrow> u64 list option" where
  "v0_body blocks metadata xz y blockCount =
     (let idx = y + xz * 128 in
      if idx + 1 < length blocks \<and> idx div 2 < length metadata then
        let bid1 = v0_bid1 blocks metadata idx;
            bid2 = v0_bid2 blocks metadata idx
        in Option.bind
             (incr blockCount (unat (of_nat (y + 0) * v0_idLim + ucast bid1 :: size_t)))
             (\<lambda>bc. incr bc (unat (of_nat (y + 1) * v0_idLim + ucast bid2 :: size_t)))
      else None)"

definition dsci_v0 :: "u64 list \<Rightarrow> u8 list \<Rightarrow> u8 list \<Rightarrow> u64 list option" where
  "dsci_v0 blockCount blocks metadata =
     for_each [0..<16 * 16]
       (\<lambda>xz. for_each (map (\<lambda>k. 2 * k) [0..<64]) (\<lambda>y. v0_body blocks metadata xz y))
       blockCount"

section \<open>\<^verbatim>\<open>dsci_v2\<close>\<close>

definition v2_bid1 :: "u8 list \<Rightarrow> u8 list \<Rightarrow> u8 list \<Rightarrow> u8 list \<Rightarrow> nat \<Rightarrow> u32" where
  "v2_bid1 blocks add add2 metadata idx =
     push_bit 16 (NIBBLE_LO (add2 ! idx))
       OR push_bit 12 (NIBBLE_LO (add ! idx))
       OR push_bit 4 (ucast (blocks ! (idx * 2 + 0)) :: u32)
       OR NIBBLE_LO (metadata ! idx)"

definition v2_bid2 :: "u8 list \<Rightarrow> u8 list \<Rightarrow> u8 list \<Rightarrow> u8 list \<Rightarrow> nat \<Rightarrow> u32" where
  "v2_bid2 blocks add add2 metadata idx =
     push_bit 16 (NIBBLE_HI (add2 ! idx))
       OR push_bit 12 (NIBBLE_HI (add ! idx))
       OR push_bit 4 (ucast (blocks ! (idx * 2 + 1)) :: u32)
       OR NIBBLE_HI (metadata ! idx)"

text \<open>The subscript \<^verbatim>\<open>(ySection * 16 + y) * idLim + bid\<close>: the product
  \<^verbatim>\<open>ySection * 16\<close> is formed in \<^verbatim>\<open>uint32_t\<close>, the rest in \<^verbatim>\<open>size_t\<close>.\<close>

definition section_index :: "u32 \<Rightarrow> u32 \<Rightarrow> nat \<Rightarrow> u32 \<Rightarrow> nat" where
  "section_index idLim ySection y bid =
     unat ((ucast (ySection * 16) + of_nat y) * ucast idLim + ucast bid :: size_t)"

definition v2_body ::
  "u32 \<Rightarrow> u32 \<Rightarrow> u8 list \<Rightarrow> u8 list \<Rightarrow> u8 list \<Rightarrow> u8 list \<Rightarrow> nat \<Rightarrow> nat
     \<Rightarrow> u64 list \<Rightarrow> u64 list option" where
  "v2_body idLim ySection blocks add add2 metadata y zx blockCount =
     (let idx = zx + y * (16 * 16 div 2) in
      if idx < length add2 \<and> idx < length add \<and> idx * 2 + 1 < length blocks
         \<and> idx < length metadata then
        let bid1 = v2_bid1 blocks add add2 metadata idx;
            bid2 = v2_bid2 blocks add add2 metadata idx
        in Option.bind
             (incr blockCount (section_index idLim ySection y bid1))
             (\<lambda>bc. incr bc (section_index idLim ySection y bid2))
      else None)"

definition dsci_v2 ::
  "u64 list \<Rightarrow> u32 \<Rightarrow> u32 \<Rightarrow> u8 list \<Rightarrow> u8 list \<Rightarrow> u8 list \<Rightarrow> u8 list
     \<Rightarrow> u64 list option" where
  "dsci_v2 blockCount idLim ySection blocks add add2 metadata =
     for_each [0..<16]
       (\<lambda>y. for_each [0..<16 * 16 div 2]
          (\<lambda>zx. v2_body idLim ySection blocks add add2 metadata y zx))
       blockCount"

section \<open>The bitstream unpackers\<close>

text \<open>\<^verbatim>\<open>const uint16_t mask = (1 << idxBits) - 1;\<close>, computed in \<^verbatim>\<open>int\<close> and
  converted to 16 bits. It is only evaluated for \<open>idxBits \<le> 16\<close>.\<close>

definition idx_mask :: "u32 \<Rightarrow> u16" where
  "idx_mask idxBits = word_of_int (push_bit (unat idxBits) 1 - 1)"

text \<open>The result of an inner extraction loop: either the function returned
  (4096 values are in the buffer), or the loop ran out of buffered bits.\<close>

datatype wc_state = Returned_wc "u16 list" | Drained_wc u64 u32 nat "u16 list"

text \<open>\<^verbatim>\<open>while (bufSize >= idxBits) { unpacked[iout++] = packBuf & mask; if (iout >= 4096)
  return; packBuf >>= idxBits; bufSize -= idxBits; }\<close>\<close>

function wc_extract :: "u32 \<Rightarrow> u64 \<Rightarrow> u32 \<Rightarrow> nat \<Rightarrow> u16 list \<Rightarrow> wc_state option" where
  "wc_extract idxBits packBuf bufSize iout unpacked =
     (if bufSize \<ge> idxBits then
        if iout < length unpacked then
          let unpacked' = unpacked[iout := ucast (packBuf AND ucast (idx_mask idxBits))];
              iout' = iout + 1
          in if iout' \<ge> 16 * 16 * 16 then Some (Returned_wc unpacked')
             else wc_extract idxBits (drop_bit (unat idxBits) packBuf) (bufSize - idxBits)
                    iout' unpacked'
        else None
      else Some (Drained_wc packBuf bufSize iout unpacked))"
  by pat_completeness auto
termination
  by (relation "measure (\<lambda>(idxBits, packBuf, bufSize, iout, unpacked). 16 * 16 * 16 - iout)")
    auto

text \<open>\<^verbatim>\<open>packBuf |= x << bufSize; bufSize += 32;\<close> A shift of a 64-bit value by 64 or more
  is undefined.\<close>

definition wc_feed :: "u64 \<Rightarrow> u32 \<Rightarrow> u64 \<Rightarrow> (u64 \<times> u32) option" where
  "wc_feed packBuf bufSize x =
     (if unat bufSize < 64 then Some (packBuf OR push_bit (unat bufSize) x, bufSize + 32)
      else None)"

text \<open>The body of \<^verbatim>\<open>for (;;)\<close> in \<^verbatim>\<open>unpack_block_idxs_wc\<close>: the low half of
  \<^verbatim>\<open>packed[iin]\<close> is fed and extracted, then the high half, then \<open>iin\<close> advances.\<close>

function wc_loop ::
  "u32 \<Rightarrow> u64 list \<Rightarrow> u64 \<Rightarrow> u32 \<Rightarrow> nat \<Rightarrow> nat \<Rightarrow> u16 list \<Rightarrow> u16 list option" where
  "wc_loop idxBits packed packBuf bufSize iin iout unpacked =
     (if iin < length packed then
        case wc_feed packBuf bufSize (packed ! iin AND 0xffffffff) of
          None \<Rightarrow> None
        | Some (packBuf1, bufSize1) \<Rightarrow>
            (case wc_extract idxBits packBuf1 bufSize1 iout unpacked of
               None \<Rightarrow> None
             | Some (Returned_wc u) \<Rightarrow> Some u
             | Some (Drained_wc packBuf2 bufSize2 iout2 unpacked2) \<Rightarrow>
                 (case wc_feed packBuf2 bufSize2 (drop_bit 32 (packed ! iin)) of
                    None \<Rightarrow> None
                  | Some (packBuf3, bufSize3) \<Rightarrow>
                      (case wc_extract idxBits packBuf3 bufSize3 iout2 unpacked2 of
                         None \<Rightarrow> None
                       | Some (Returned_wc u) \<Rightarrow> Some u
                       | Some (Drained_wc packBuf4 bufSize4 iout4 unpacked4) \<Rightarrow>
                           wc_loop idxBits packed packBuf4 bufSize4 (iin + 1) iout4
                             unpacked4)))
      else None)"
  by pat_completeness auto
termination
  by (relation "measure (\<lambda>(idxBits, packed, packBuf, bufSize, iin, iout, unpacked).
        length packed - iin)") auto

definition unpack_block_idxs_wc :: "u64 list \<Rightarrow> u32 \<Rightarrow> u16 list \<Rightarrow> u16 list option" where
  "unpack_block_idxs_wc packed idxBits unpacked =
     (if idxBits > 16 then Some unpacked
      else wc_loop idxBits packed 0 0 0 0 unpacked)"

datatype nc_state = Returned_nc "u16 list" | Next_nc nat "u16 list"

text \<open>\<^verbatim>\<open>for (uint32_t i = 64; i >= idxBits; i -= idxBits) { unpacked[iout++] = buf & mask;
  if (iout >= 4096) return; buf >>= idxBits; }\<close>\<close>

function nc_word :: "u32 \<Rightarrow> u32 \<Rightarrow> u64 \<Rightarrow> nat \<Rightarrow> u16 list \<Rightarrow> nc_state option" where
  "nc_word idxBits i buf iout unpacked =
     (if i \<ge> idxBits then
        if iout < length unpacked then
          let unpacked' = unpacked[iout := ucast (buf AND ucast (idx_mask idxBits))];
              iout' = iout + 1
          in if iout' \<ge> 16 * 16 * 16 then Some (Returned_nc unpacked')
             else nc_word idxBits (i - idxBits) (drop_bit (unat idxBits) buf) iout' unpacked'
        else None
      else Some (Next_nc iout unpacked))"
  by pat_completeness auto
termination
  by (relation "measure (\<lambda>(idxBits, i, buf, iout, unpacked). 16 * 16 * 16 - iout)") auto

function nc_loop :: "u32 \<Rightarrow> u64 list \<Rightarrow> nat \<Rightarrow> nat \<Rightarrow> u16 list \<Rightarrow> u16 list option" where
  "nc_loop idxBits packed iin iout unpacked =
     (if iin < length packed then
        case nc_word idxBits 64 (packed ! iin) iout unpacked of
          None \<Rightarrow> None
        | Some (Returned_nc u) \<Rightarrow> Some u
        | Some (Next_nc iout' unpacked') \<Rightarrow> nc_loop idxBits packed (iin + 1) iout' unpacked'
      else None)"
  by pat_completeness auto
termination
  by (relation "measure (\<lambda>(idxBits, packed, iin, iout, unpacked). length packed - iin)") auto

definition unpack_block_idxs_nc :: "u64 list \<Rightarrow> u32 \<Rightarrow> u16 list \<Rightarrow> u16 list option" where
  "unpack_block_idxs_nc packed idxBits unpacked =
     (if idxBits > 16 then Some unpacked
      else nc_loop idxBits packed 0 0 unpacked)"

section \<open>\<^verbatim>\<open>dsci_v13\<close>\<close>

text \<open>\<^verbatim>\<open>while ((1u << idxBits) < maxPaletteIdx + 1) idxBits++;\<close> The sum
  \<^verbatim>\<open>maxPaletteIdx + 1\<close> wraps in 32 bits; a shift of \<^verbatim>\<open>1u\<close> by 32 is undefined.\<close>

function v13_idx_bits :: "u32 \<Rightarrow> u32 \<Rightarrow> u32 option" where
  "v13_idx_bits maxPaletteIdx idxBits =
     (if unat idxBits < 32 then
        if (push_bit (unat idxBits) 1 :: u32) < maxPaletteIdx + 1
        then v13_idx_bits maxPaletteIdx (idxBits + 1)
        else Some idxBits
      else None)"
  by pat_completeness auto
termination
proof (relation "measure (\<lambda>(maxPaletteIdx, idxBits). 32 - unat idxBits)")
  show "wf (measure (\<lambda>(maxPaletteIdx :: u32, idxBits :: u32). 32 - unat idxBits))"
    by simp
next
  fix maxPaletteIdx idxBits :: u32
  assume "unat idxBits < 32"
  then have "unat (idxBits + 1) = unat idxBits + 1"
    by (simp add: unat_word_ariths)
  with \<open>unat idxBits < 32\<close>
  show "((maxPaletteIdx, idxBits + 1), (maxPaletteIdx, idxBits))
          \<in> measure (\<lambda>(maxPaletteIdx, idxBits). 32 - unat idxBits)"
    by simp
qed

definition v13_body ::
  "u32 \<Rightarrow> u32 \<Rightarrow> u32 list \<Rightarrow> u16 list \<Rightarrow> nat \<Rightarrow> nat \<Rightarrow> u64 list \<Rightarrow> u64 list option" where
  "v13_body idLim ySection paletteMap paletteIdxs y zx blockCount =
     (let idx = zx + y * (16 * 16) in
      if idx < length paletteIdxs \<and> unat (paletteIdxs ! idx) < length paletteMap then
        let bid = paletteMap ! unat (paletteIdxs ! idx)
        in incr blockCount (section_index idLim ySection y bid)
      else None)"

text \<open>\<^verbatim>\<open>uint16_t paletteIdxs[16 * 16 * 16];\<close> is an uninitialised automatic array: its
  indeterminate initial contents are the parameter \<open>stack\<close>.\<close>

definition dsci_v13 ::
  "u64 list \<Rightarrow> u32 \<Rightarrow> u32 \<Rightarrow> u64 list \<Rightarrow> u32 list \<Rightarrow> u32 \<Rightarrow> bool \<Rightarrow> u16 list
     \<Rightarrow> u64 list option" where
  "dsci_v13 blockCount idLim ySection blockStates paletteMap maxPaletteIdx carry stack =
     (case v13_idx_bits maxPaletteIdx 4 of
        None \<Rightarrow> None
      | Some idxBits \<Rightarrow>
          (case (if carry then unpack_block_idxs_wc blockStates idxBits stack
                 else unpack_block_idxs_nc blockStates idxBits stack) of
             None \<Rightarrow> None
           | Some paletteIdxs \<Rightarrow>
               for_each [0..<16]
                 (\<lambda>y. for_each [0..<16 * 16]
                    (\<lambda>zx. v13_body idLim ySection paletteMap paletteIdxs y zx))
                 blockCount))"

section \<open>Specification-level definitions\<close>

text \<open>The recursive equations of the loop functions are unfolded one step at a time, by hand.\<close>

declare wc_extract.simps [simp del] wc_loop.simps [simp del] nc_word.simps [simp del]
  nc_loop.simps [simp del] v13_idx_bits.simps [simp del]

subsection \<open>Histograms\<close>

text \<open>Incrementing the listed histogram entries one after the other; undefined as soon as
  one of them lies outside the histogram.\<close>

fun incr_all :: "nat list \<Rightarrow> u64 list \<Rightarrow> u64 list option" where
  "incr_all [] h = Some h"
| "incr_all (t # ts) h = Option.bind (incr h t) (incr_all ts)"

text \<open>The cells of a v0 section are the pairs \<open>(column, y)\<close>. The identifier of a cell in
  closed form: the byte of \<open>blocks\<close> at \<open>idx = y + column * 128\<close>, times 16, plus the nibble
  of \<open>metadata[idx div 2]\<close> that belongs to the cell (the low one for even \<open>y\<close>, the high one
  for odd \<open>y\<close>); its histogram entry is \<open>y * 4096 + identifier\<close>.\<close>

definition v0_cell_id :: "u8 list \<Rightarrow> u8 list \<Rightarrow> nat \<Rightarrow> nat \<Rightarrow> nat" where
  "v0_cell_id blocks metadata column y =
     (let idx = y + column * 128; m = unat (metadata ! (idx div 2))
      in unat (blocks ! idx) * 16 + (if even y then m mod 16 else m div 16))"

definition v0_cell_index :: "u8 list \<Rightarrow> u8 list \<Rightarrow> nat \<times> nat \<Rightarrow> nat" where
  "v0_cell_index blocks metadata c = snd c * 4096 + v0_cell_id blocks metadata (fst c) (snd c)"

definition v0_cells :: "(nat \<times> nat) list" where
  "v0_cells = List.product [0..<256] [0..<128]"

text \<open>A well-formed v0 call: the arrays of a 16x16x128 section and a histogram of at least
  128 layers of 4096 identifiers.\<close>

definition v0_wf :: "u64 list \<Rightarrow> u8 list \<Rightarrow> u8 list \<Rightarrow> bool" where
  "v0_wf blockCount blocks metadata \<longleftrightarrow>
     length blocks = 16 * 16 * 128 \<and> length metadata = 16 * 16 * 128 div 2
     \<and> 128 * 4096 \<le> length blockCount"

text \<open>The cells of a 16x16x16 section are the pairs \<open>(y, j)\<close> of a local layer and a
  position in the layer. The v2 identifier of a cell in closed form, for the cell at blocks
  index \<open>c = j + y * 256\<close> and nibble slot \<open>c div 2\<close>: the concatenation of the add2 nibble,
  the add nibble, the blocks byte and the metadata nibble.\<close>

definition v2_cell_id ::
  "u8 list \<Rightarrow> u8 list \<Rightarrow> u8 list \<Rightarrow> u8 list \<Rightarrow> nat \<Rightarrow> nat \<Rightarrow> nat" where
  "v2_cell_id blocks add add2 metadata y j =
     (let c = j + y * 256; n = c div 2;
          nib = (\<lambda>a. if even j then unat a mod 16 else unat a div 16)
      in nib (add2 ! n) * 65536 + nib (add ! n) * 4096 + unat (blocks ! c) * 16
           + nib (metadata ! n))"

text \<open>The histogram entry of an identifier at local layer \<open>y\<close>. The layer base
  \<open>unat (ySection * 16)\<close> is the 32-bit product, that is \<open>ySection * 16\<close> reduced modulo
  \<open>2 ^ 32\<close>.\<close>

definition layer_index :: "u32 \<Rightarrow> u32 \<Rightarrow> nat \<Rightarrow> nat \<Rightarrow> nat" where
  "layer_index idLim ySection y ident = (unat (ySection * 16) + y) * unat idLim + ident"

definition v2_cell_index ::
  "u32 \<Rightarrow> u32 \<Rightarrow> u8 list \<Rightarrow> u8 list \<Rightarrow> u8 list \<Rightarrow> u8 list \<Rightarrow> nat \<times> nat \<Rightarrow> nat" where
  "v2_cell_index idLim ySection blocks add add2 metadata c =
     layer_index idLim ySection (fst c) (v2_cell_id blocks add add2 metadata (fst c) (snd c))"

definition section_cells :: "(nat \<times> nat) list" where
  "section_cells = List.product [0..<16] [0..<256]"

definition v2_arrays :: "u8 list \<Rightarrow> u8 list \<Rightarrow> u8 list \<Rightarrow> u8 list \<Rightarrow> bool" where
  "v2_arrays blocks add add2 metadata \<longleftrightarrow>
     length blocks = 4096 \<and> length add = 2048 \<and> length add2 = 2048 \<and> length metadata = 2048"

text \<open>The histogram entry of the v13 cell \<open>(y, zx)\<close>, given the unpacked palette indices.\<close>

definition v13_cell_index :: "u32 \<Rightarrow> u32 \<Rightarrow> u32 list \<Rightarrow> u16 list \<Rightarrow> nat \<times> nat \<Rightarrow> nat" where
  "v13_cell_index idLim ySection paletteMap paletteIdxs c =
     layer_index idLim ySection (fst c)
       (unat (paletteMap ! unat (paletteIdxs ! (snd c + fst c * 256))))"

text \<open>The entries of the 16 layers a v2 or v13 call counts into.\<close>

definition section_region :: "u32 \<Rightarrow> u32 \<Rightarrow> nat \<Rightarrow> bool" where
  "section_region idLim ySection i \<longleftrightarrow>
     unat (ySection * 16) * unat idLim \<le> i \<and> i < (unat (ySection * 16) + 16) * unat idLim"

text \<open>A well-formed v2 call: arrays of the section's sizes, every identifier below
  \<open>idLim\<close>, and a histogram that holds the 16 layers of the section. The bound on the
  histogram follows from \<open>(ySection * 16 + 16) * idLim \<le> length blockCount\<close>, since the
  32-bit product is at most \<open>ySection * 16\<close>.\<close>

definition v2_wf ::
  "u64 list \<Rightarrow> u32 \<Rightarrow> u32 \<Rightarrow> u8 list \<Rightarrow> u8 list \<Rightarrow> u8 list \<Rightarrow> u8 list \<Rightarrow> bool" where
  "v2_wf blockCount idLim ySection blocks add add2 metadata \<longleftrightarrow>
     v2_arrays blocks add add2 metadata
     \<and> (\<forall>c\<in>{..<16} \<times> {..<256}.
           v2_cell_id blocks add add2 metadata (fst c) (snd c) < unat idLim)
     \<and> (unat (ySection * 16) + 16) * unat idLim \<le> length blockCount"

subsection \<open>Bit streams\<close>

text \<open>Bit \<open>i\<close> of the packed words read as one sequence of bits, word after word, each
  word from its least significant bit.\<close>

definition stream_bit :: "u64 list \<Rightarrow> nat \<Rightarrow> bool" where
  "stream_bit packed i \<longleftrightarrow> i div 64 < length packed \<and> bit (packed ! (i div 64)) (i mod 64)"

text \<open>The \<open>s\<close> bits of the stream from position \<open>c\<close>, as a 64-bit accumulator.\<close>

definition window :: "u64 list \<Rightarrow> nat \<Rightarrow> nat \<Rightarrow> u64" where
  "window packed c s = horner_sum of_bool 2 (map (\<lambda>n. n < s \<and> stream_bit packed (c + n)) [0..<64])"

text \<open>The \<open>t\<close>-th field of \<open>b\<close> bits of a 64-bit word.\<close>

definition field :: "nat \<Rightarrow> u64 \<Rightarrow> nat \<Rightarrow> u16" where
  "field b w t = ucast (take_bit b (drop_bit (t * b) w))"

text \<open>Value \<open>m\<close> of width \<open>b\<close> in the with-carry layout: the bits \<open>m * b\<close> to
  \<open>m * b + b - 1\<close> of the stream.\<close>

definition wc_value :: "u64 list \<Rightarrow> nat \<Rightarrow> nat \<Rightarrow> u16" where
  "wc_value packed b m = horner_sum of_bool 2 (map (\<lambda>n. stream_bit packed (m * b + n)) [0..<b])"

text \<open>Value \<open>m\<close> of width \<open>b\<close> in the no-carry layout: a word holds \<open>64 div b\<close> values, so
  bit \<open>n\<close> of value \<open>m\<close> is bit \<open>m mod (64 div b) * b + n\<close> of word \<open>m div (64 div b)\<close>.\<close>

definition nc_pos :: "nat \<Rightarrow> nat \<Rightarrow> nat \<Rightarrow> nat" where
  "nc_pos b m n = m div (64 div b) * 64 + m mod (64 div b) * b + n"

definition nc_value :: "u64 list \<Rightarrow> nat \<Rightarrow> nat \<Rightarrow> u16" where
  "nc_value packed b m =
     horner_sum of_bool 2
       (map (\<lambda>n. stream_bit packed (m div (64 div b) * 64 + m mod (64 div b) * b + n)) [0..<b])"

definition wc_out :: "u64 list \<Rightarrow> nat \<Rightarrow> u16 list" where
  "wc_out packed b = map (wc_value packed b) [0..<4096]"

definition nc_out :: "u64 list \<Rightarrow> nat \<Rightarrow> u16 list" where
  "nc_out packed b = map (nc_value packed b) [0..<4096]"

text \<open>The extraction loop of the no-carry unpacker is that of the with-carry one; it forgets
  the buffer.\<close>

fun nc_of_wc :: "wc_state \<Rightarrow> nc_state" where
  "nc_of_wc (Returned_wc u) = Returned_nc u"
| "nc_of_wc (Drained_wc packBuf bufSize iout u) = Next_nc iout u"



subsection \<open>Well-formed v13 calls\<close>

definition unpacked_values :: "bool \<Rightarrow> u64 list \<Rightarrow> nat \<Rightarrow> u16 list" where
  "unpacked_values carry packed b = (if carry then wc_out packed b else nc_out packed b)"

definition enough_words :: "bool \<Rightarrow> u64 list \<Rightarrow> nat \<Rightarrow> bool" where
  "enough_words carry packed b \<longleftrightarrow>
     (if carry then 64 * b \<le> length packed else 4096 \<le> length packed * (64 div b))"

text \<open>A well-formed v13 call: a palette of \<open>maxPaletteIdx + 1 \<le> 2 ^ 16\<close> entries, all below
  \<open>idLim\<close>; \<open>idxBits\<close> the width the decoder computes; a 4096-entry index buffer; packed
  words for 4096 values of that width, each value an index into the palette; and a
  histogram that holds the 16 layers of the section.\<close>

definition v13_wf ::
  "u64 list \<Rightarrow> u32 \<Rightarrow> u32 \<Rightarrow> u64 list \<Rightarrow> u32 list \<Rightarrow> u32 \<Rightarrow> bool \<Rightarrow> u16 list \<Rightarrow> u32
     \<Rightarrow> bool" where
  "v13_wf blockCount idLim ySection blockStates paletteMap maxPaletteIdx carry stack idxBits \<longleftrightarrow>
     length paletteMap = unat maxPaletteIdx + 1 \<and> unat maxPaletteIdx + 1 \<le> 2 ^ 16
     \<and> v13_idx_bits maxPaletteIdx 4 = Some idxBits
     \<and> length stack = 4096
     \<and> enough_words carry blockStates (unat idxBits)
     \<and> (\<forall>i\<in>set (unpacked_values carry blockStates (unat idxBits)). unat i \<le> unat maxPaletteIdx)
     \<and> (\<forall>ident\<in>set paletteMap. ident < idLim)
     \<and> (unat (ySection * 16) + 16) * unat idLim \<le> length blockCount"

section \<open>Counting increments\<close>

lemma incr_all_append:
  "incr_all (ts @ us) h = Option.bind (incr_all ts h) (incr_all us)"
  by (induction ts arbitrary: h) (auto simp: incr_def)

lemma for_each_incr_all:
  "(\<And>i h. i \<in> set js \<Longrightarrow> body i h = incr_all (tg i) h)
     \<Longrightarrow> for_each js body h = incr_all (concat (map tg js)) h"
proof (induction js arbitrary: h)
  case Nil
  then show ?case by simp
next
  case (Cons j js)
  show ?case
  proof (cases "incr_all (tg j) h")
    case None
    with Cons.prems show ?thesis by (simp add: incr_all_append)
  next
    case (Some h1)
    with Cons show ?thesis by (simp add: incr_all_append)
  qed
qed

lemma incr_all_Some:
  "\<forall>t\<in>set ts. t < length h
     \<Longrightarrow> \<exists>h'. incr_all ts h = Some h' \<and> length h' = length h
           \<and> (\<forall>i<length h. h' ! i = h ! i + of_nat (count_list ts i))"
proof (induction ts arbitrary: h)
  case Nil
  then show ?case by simp
next
  case (Cons t ts)
  let ?h1 = "h[t := h ! t + 1]"
  from Cons.prems have t: "t < length h" and "\<forall>t\<in>set ts. t < length ?h1" by simp_all
  from Cons.IH [OF this(2)] obtain h' where h': "incr_all ts ?h1 = Some h'"
    "length h' = length h" "\<forall>i<length h. h' ! i = ?h1 ! i + of_nat (count_list ts i)"
    by auto
  from t h' show ?case
    by (auto simp: incr_def nth_list_update)
qed

lemma sum_count_list_below:
  "(\<Sum>i<n. count_list ts i) = length (filter (\<lambda>t. t < n) ts)" for n :: nat
proof (induction ts)
  case Nil
  then show ?case by simp
next
  case (Cons t ts)
  have "(\<Sum>i<n. count_list (t # ts) i) = (\<Sum>i<n. (if t = i then 1 else 0) + count_list ts i)"
    by (rule sum.cong) auto
  also have "\<dots> = (\<Sum>i<n. if t = i then 1 else 0) + (\<Sum>i<n. count_list ts i)"
    by (simp add: sum.distrib)
  also have "(\<Sum>i<n. if t = i then 1 else 0) = (if t < n then 1 else (0::nat))"
    using sum.delta' [of "{..<n}" t "\<lambda>_. 1::nat"] by simp
  finally show ?case using Cons by simp
qed

lemma count_list_map_filter:
  "count_list (map f xs) i = length (filter (\<lambda>x. f x = i) xs)"
  by (induction xs) auto

lemma count_list_card:
  "distinct xs \<Longrightarrow> count_list (map f xs) i = card {x \<in> set xs. f x = i}"
proof -
  assume d: "distinct xs"
  have "{x \<in> set xs. f x = i} = {x. f x = i} \<inter> set xs" by auto
  with d show ?thesis
    by (simp add: count_list_map_filter distinct_length_filter)
qed

lemma map_pairs:
  "concat (map (\<lambda>k. [f (2 * k), f (2 * k + 1)]) [0..<n]) = map f [0..<2 * n]"
  by (induction n) auto

section \<open>Nibbles and identifiers\<close>

lemma nat_shift_or:
  "b < 2 ^ n \<Longrightarrow> push_bit n a OR b = a * 2 ^ n + b" for a b :: nat
proof -
  assume b: "b < 2 ^ n"
  have "push_bit n a + b = push_bit n a OR b"
  proof (rule disjunctive_add_eq_or, rule bit_eqI)
    fix k
    show "bit (push_bit n a AND b) k = bit (0::nat) k"
    proof (cases "k < n")
      case True then show ?thesis by (simp add: bit_simps)
    next
      case False
      then have "2 ^ n \<le> (2::nat) ^ k" by simp
      with b have "b < 2 ^ k" by linarith
      then have "\<not> bit b k" by (simp add: bit_iff_odd)
      then show ?thesis by (simp add: bit_simps)
    qed
  qed
  then show ?thesis by (simp add: push_bit_eq_mult)
qed

lemma word_and_15: "x AND 15 = x mod 16" for x :: "'a::len word"
proof -
  have "(15 :: 'a word) = mask 4" by (simp add: mask_eq_exp_minus_1)
  then have "x AND 15 = x AND mask 4" by (simp only:)
  also have "\<dots> = take_bit 4 x" by (rule take_bit_eq_mask [symmetric])
  also have "\<dots> = x mod 2 ^ 4" by (rule take_bit_eq_mod)
  finally show ?thesis by simp
qed

lemma nat_mult16_or:
  "b < 16 \<Longrightarrow> a * 16 OR b = a * 16 + b" for a b :: nat
  using nat_shift_or [of b 4 a] by (simp add: push_bit_eq_mult)

lemma unat_byte_less: "unat x < 256" for x :: u8
  using unsigned_less [of x, where 'a = nat] by simp

lemma unat_NIBBLE_LO: "unat (NIBBLE_LO x) = unat x mod 16"
proof -
  have "x AND 15 = x mod 16" by (rule word_and_15)
  moreover have "unat x mod 16 < 4294967296" using unat_byte_less [of x] by linarith
  ultimately show ?thesis
    by (simp add: NIBBLE_LO_def unsigned_ucast_eq take_bit_eq_mod unat_mod)
qed

lemma unat_NIBBLE_HI: "unat (NIBBLE_HI x) = unat x div 16"
proof -
  have "drop_bit 4 x AND 15 = (x div 16) mod 16"
    by (simp add: word_and_15 drop_bit_eq_div)
  moreover have "unat x div 16 < 16" using unat_byte_less [of x] by simp
  ultimately show ?thesis
    by (simp add: NIBBLE_HI_def unsigned_ucast_eq take_bit_eq_mod unat_mod unat_div)
qed

lemma unat_shift4_byte: "unat (push_bit 4 (ucast b :: u32)) = unat b * 16" for b :: u8
proof -
  have "unat (ucast b :: u32) = unat b"
    using unat_byte_less [of b] by (simp add: unsigned_ucast_eq take_bit_eq_mod)
  then have "unat (push_bit 4 (ucast b :: u32)) = (unat b * 16) mod 2 ^ 32"
    by (simp add: push_bit_eq_mult unat_word_ariths)
  with unat_byte_less [of b] show ?thesis by simp
qed

lemma unat_v0_bid1:
  "unat (v0_bid1 blocks metadata idx) = unat (blocks ! idx) * 16 + unat (metadata ! (idx div 2)) mod 16"
proof -
  have "unat (metadata ! (idx div 2)) mod 16 < 16" by simp
  from nat_mult16_or [OF this, of "unat (blocks ! idx)"] show ?thesis
    by (simp only: v0_bid1_def unsigned_or_eq unat_NIBBLE_LO unat_shift4_byte add_0_right)
qed

lemma unat_v0_bid2:
  "unat (v0_bid2 blocks metadata idx) = unat (blocks ! (idx + 1)) * 16 + unat (metadata ! (idx div 2)) div 16"
proof -
  have "unat (metadata ! (idx div 2)) < 256"
    using unsigned_less [of "metadata ! (idx div 2)", where 'a = nat] by simp
  then have "unat (metadata ! (idx div 2)) div 16 < 16" by simp
  from nat_mult16_or [OF this, of "unat (blocks ! (idx + 1))"] show ?thesis
    by (simp only: v0_bid2_def unsigned_or_eq unat_NIBBLE_HI unat_shift4_byte)
qed

lemma v0_index:
  "y \<le> 128 \<Longrightarrow> unat (of_nat y * v0_idLim + ucast bid :: size_t) = y * 4096 + unat bid" for bid :: u32
proof -
  assume y: "y \<le> 128"
  have b: "unat bid < 2 ^ 32" using unsigned_less [of bid, where 'a = nat] by simp
  have "unat (of_nat y * v0_idLim + ucast bid :: size_t) = (y * 4096 + unat bid) mod 2 ^ 64"
    by (simp add: v0_idLim_def unat_word_ariths unsigned_ucast_eq unat_of_nat take_bit_eq_mod mod_simps)
  also from y b have "\<dots> = y * 4096 + unat bid" by simp
  finally show ?thesis .
qed

section \<open>\<^verbatim>\<open>dsci_v0\<close> as a list of increments\<close>

lemma v0_cell_id_less: "v0_cell_id blocks metadata column y < 4096"
proof -
  let ?idx = "y + column * 128"
  have "unat (blocks ! ?idx) < 256" "unat (metadata ! (?idx div 2)) < 256"
    by (rule unat_byte_less)+
  then show ?thesis by (auto simp: v0_cell_id_def Let_def)
qed

lemma incr_all_Nil_fun: "incr_all [] = Some"
  by (rule ext) simp

lemma incr_all_one: "incr_all [b] = (\<lambda>bc. incr bc b)"
  by (rule ext) (simp add: incr_all_Nil_fun)

lemma incr_all_two: "Option.bind (incr h a) (\<lambda>bc. incr bc b) = incr_all [a, b] h"
  by (simp add: incr_all_one)

lemma v0_body_incr_all:
  assumes "length blocks = 32768" "length metadata = 16384" "xz < 256" "k < 64"
  shows "v0_body blocks metadata xz (2 * k) h =
     incr_all [v0_cell_index blocks metadata (xz, 2 * k),
               v0_cell_index blocks metadata (xz, 2 * k + 1)] h"
proof -
  let ?idx = "2 * k + xz * 128"
  from assms have r: "?idx + 1 < length blocks" "?idx div 2 < length metadata" by auto
  have d: "(2 * k + 1 + xz * 128) div 2 = ?idx div 2" by presburger
  have i1: "unat (of_nat (2 * k + 0) * v0_idLim + ucast (v0_bid1 blocks metadata ?idx) :: size_t)
      = v0_cell_index blocks metadata (xz, 2 * k)"
  proof -
    have "2 * k + 0 \<le> 128" using assms(4) by simp
    from v0_index [OF this] show ?thesis
      by (simp only: unat_v0_bid1 v0_cell_index_def v0_cell_id_def Let_def fst_conv snd_conv) simp
  qed
  have i2: "unat (of_nat (2 * k + 1) * v0_idLim + ucast (v0_bid2 blocks metadata ?idx) :: size_t)
      = v0_cell_index blocks metadata (xz, 2 * k + 1)"
  proof -
    have "2 * k + 1 \<le> 128" using assms(4) by simp
    from v0_index [OF this] d show ?thesis
      by (simp only: unat_v0_bid2 v0_cell_index_def v0_cell_id_def Let_def fst_conv snd_conv)
        (simp add: add.commute)
  qed
  show ?thesis
    unfolding v0_body_def Let_def using r i1 i2
    by (simp only: if_True simp_thms incr_all_two)
qed

lemma dsci_v0_incr_all:
  assumes "length blocks = 32768" "length metadata = 16384"
  shows "dsci_v0 h blocks metadata = incr_all (map (v0_cell_index blocks metadata) v0_cells) h"
proof -
  have inner: "for_each (map (\<lambda>k. 2 * k) [0..<64]) (\<lambda>y. v0_body blocks metadata xz y) h' =
      incr_all (map (\<lambda>y. v0_cell_index blocks metadata (xz, y)) [0..<128]) h'"
    if "xz < 256" for xz h'
  proof -
    have "for_each (map (\<lambda>k. 2 * k) [0..<64]) (\<lambda>y. v0_body blocks metadata xz y) h' =
       incr_all (concat (map (\<lambda>y. [v0_cell_index blocks metadata (xz, y),
               v0_cell_index blocks metadata (xz, y + 1)]) (map (\<lambda>k. 2 * k) [0..<64]))) h'"
      by (rule for_each_incr_all) (use assms that in \<open>auto simp: v0_body_incr_all\<close>)
    also have "concat (map (\<lambda>y. [v0_cell_index blocks metadata (xz, y),
               v0_cell_index blocks metadata (xz, y + 1)]) (map (\<lambda>k. 2 * k) [0..<64]))
       = map (\<lambda>y. v0_cell_index blocks metadata (xz, y)) [0..<2 * 64]"
      using map_pairs [of "\<lambda>y. v0_cell_index blocks metadata (xz, y)" 64]
      by (simp add: comp_def)
    finally show ?thesis by simp
  qed
  have "for_each [0..<256]
       (\<lambda>xz. for_each (map (\<lambda>k. 2 * k) [0..<64]) (\<lambda>y. v0_body blocks metadata xz y)) h =
     incr_all (concat (map (\<lambda>xz. map (\<lambda>y. v0_cell_index blocks metadata (xz, y)) [0..<128]) [0..<256])) h"
    by (rule for_each_incr_all) (simp add: inner)
  then have "dsci_v0 h blocks metadata =
     incr_all (concat (map (\<lambda>xz. map (\<lambda>y. v0_cell_index blocks metadata (xz, y)) [0..<128]) [0..<256])) h"
    by (simp add: dsci_v0_def)
  also have "concat (map (\<lambda>xz. map (\<lambda>y. v0_cell_index blocks metadata (xz, y)) [0..<128]) [0..<256])
      = map (v0_cell_index blocks metadata) v0_cells"
    by (simp add: v0_cells_def product_concat_map map_concat comp_def)
  finally show ?thesis .
qed

lemma distinct_v0_cells: "distinct v0_cells"
  by (simp add: v0_cells_def distinct_product)

lemma set_v0_cells: "set v0_cells = {..<256} \<times> {..<128}"
  by (auto simp: v0_cells_def)

lemma length_v0_cells: "length v0_cells = 32768"
  by (simp add: v0_cells_def)

lemma v0_cell_id_zero:
  "column < 256 \<Longrightarrow> y < 128 \<Longrightarrow> v0_cell_id (replicate 32768 0) (replicate 16384 0) column y = 0"
  by (simp add: v0_cell_id_def Let_def)

lemma v0_zero_cells:
  "{c \<in> {..<256} \<times> {..<128}. v0_cell_index (replicate 32768 0) (replicate 16384 0) c = 0}
     = {..<256} \<times> {0}"
  by (auto simp: v0_cell_index_def v0_cell_id_zero)

section \<open>The extraction loop\<close>

lemma idx_mask_eq: "idx_mask idxBits = mask (unat idxBits)"
  by (simp add: idx_mask_def mask_eq_exp_minus_1 push_bit_eq_mult)

lemma extract_value:
  fixes pb :: u64
  assumes "unat idxBits = b" "b \<le> 16"
  shows "(ucast (pb AND ucast (idx_mask idxBits)) :: u16) = ucast (take_bit b pb)"
proof -
  have "(ucast (mask b :: u16) :: u64) = mask b"
    using assms(2) by (intro bit_word_eqI) (auto simp: bit_simps)
  then show ?thesis
    using assms(1) by (simp add: idx_mask_eq take_bit_eq_mask)
qed

lemma wc_extract_general:
  assumes "1 \<le> b" "b \<le> 16"
  shows "unat idxBits = b \<Longrightarrow> unat bufSize = s \<Longrightarrow> iout < 4096 \<Longrightarrow> length u = 4096 \<Longrightarrow>
    \<exists>u'. length u' = 4096
      \<and> (\<forall>j<4096. u' ! j = (if iout \<le> j \<and> j < iout + s div b then field b pb (j - iout) else u ! j))
      \<and> wc_extract idxBits pb bufSize iout u =
          (if 4096 \<le> iout + s div b then Some (Returned_wc u')
           else Some (Drained_wc (drop_bit (s div b * b) pb) (of_nat (s mod b)) (iout + s div b) u'))"
proof (induction idxBits pb bufSize iout u arbitrary: s rule: wc_extract.induct)
  case (1 idxBits pb bufSize iout u)
  note ib = "1.prems"(1) and prems = "1.prems"(2-)
  show ?case
  proof (cases "idxBits \<le> bufSize")
    case False
    then have "\<not> unat idxBits \<le> unat bufSize" by (simp add: word_le_nat_alt)
    then have "s < b" using ib prems(1) by linarith
    then have "s div b = 0" "s mod b = s" by simp_all
    moreover have "of_nat s = bufSize" using prems(1) by auto
    moreover have "\<forall>j<4096. u ! j = (if iout \<le> j \<and> j < iout + 0 then field b pb (j - iout) else u ! j)"
      by auto
    ultimately show ?thesis
      using False prems(2,3) by (intro exI [of _ u]) (simp add: wc_extract.simps [of idxBits pb bufSize])
  next
    case True
    then have "unat idxBits \<le> unat bufSize" by (simp add: word_le_nat_alt)
    then have sb: "b \<le> s" using ib prems(1) by linarith
    let ?u1 = "u[iout := field b pb 0]"
    have v: "(ucast (pb AND ucast (idx_mask idxBits)) :: u16) = field b pb 0"
      using extract_value [OF ib assms(2)] by (simp add: field_def)
    have s1: "unat (bufSize - idxBits) = s - b"
      using True ib prems(1) by (simp add: unat_sub)
    have dm: "s div b = Suc ((s - b) div b)" "s mod b = (s - b) mod b"
      using sb assms(1) by (simp_all add: le_div_geq le_mod_geq)
    show ?thesis
    proof (cases "4096 \<le> iout + 1")
      case True
      then have "4096 \<le> iout + s div b" using dm by simp
      moreover have "\<forall>j<4096. ?u1 ! j = (if iout \<le> j \<and> j < iout + s div b then field b pb (j - iout) else u ! j)"
        using True prems(2,3) dm(1) by (auto simp: nth_list_update)
      ultimately show ?thesis
        using \<open>idxBits \<le> bufSize\<close> True prems v
        by (intro exI [of _ ?u1]) (simp add: wc_extract.simps [of idxBits pb bufSize])
    next
      case False
      then have lt: "iout + 1 < 4096" by simp
      let ?u0 = "u[iout := ucast (pb AND ucast (idx_mask idxBits))]"
      have "\<exists>u'. length u' = 4096
        \<and> (\<forall>j<4096. u' ! j = (if iout + 1 \<le> j \<and> j < iout + 1 + (s - b) div b
             then field b (drop_bit (unat idxBits) pb) (j - (iout + 1)) else ?u0 ! j))
        \<and> wc_extract idxBits (drop_bit (unat idxBits) pb) (bufSize - idxBits) (iout + 1) ?u0 =
          (if 4096 \<le> iout + 1 + (s - b) div b then Some (Returned_wc u')
           else Some (Drained_wc (drop_bit ((s - b) div b * b) (drop_bit (unat idxBits) pb))
                  (of_nat ((s - b) mod b)) (iout + 1 + (s - b) div b) u'))"
        by (rule "1.IH") (use \<open>idxBits \<le> bufSize\<close> prems(2,3) False ib s1 in simp_all)
      then obtain u' where u': "length u' = 4096"
        "\<forall>j<4096. u' ! j = (if iout + 1 \<le> j \<and> j < iout + 1 + (s - b) div b
             then field b (drop_bit (unat idxBits) pb) (j - (iout + 1)) else ?u1 ! j)"
        "wc_extract idxBits (drop_bit (unat idxBits) pb) (bufSize - idxBits) (iout + 1) ?u1 =
          (if 4096 \<le> iout + 1 + (s - b) div b then Some (Returned_wc u')
           else Some (Drained_wc (drop_bit ((s - b) div b * b) (drop_bit (unat idxBits) pb))
                  (of_nat ((s - b) mod b)) (iout + 1 + (s - b) div b) u'))"
        unfolding v by blast
      have f: "field b (drop_bit b pb) t = field b pb (Suc t)" for t
        by (simp add: field_def drop_bit_drop_bit add.commute)
      have "\<forall>j<4096. u' ! j = (if iout \<le> j \<and> j < iout + s div b then field b pb (j - iout) else u ! j)"
      proof (intro allI impI)
        fix j assume j: "j < (4096::nat)"
        show "u' ! j = (if iout \<le> j \<and> j < iout + s div b then field b pb (j - iout) else u ! j)"
        proof (cases "j = iout")
          case True
          with u'(2) j prems(2,3) dm show ?thesis by simp
        next
          case False
          with u'(2) j prems(2,3) dm ib f show ?thesis
            by (auto simp: Suc_diff_Suc)
        qed
      qed
      moreover have "drop_bit ((s - b) div b * b) (drop_bit (unat idxBits) pb) = drop_bit (s div b * b) pb"
        using ib dm by (simp add: drop_bit_drop_bit add.commute)
      ultimately show ?thesis
        using \<open>idxBits \<le> bufSize\<close> False prems v u'(1,3) dm
        by (intro exI [of _ u']) (simp add: wc_extract.simps [of idxBits pb bufSize])
    qed
  qed
qed

section \<open>The accumulator as a window of the bit stream\<close>

lemma bit_window:
  "bit (window packed c s) n \<longleftrightarrow> n < 64 \<and> n < s \<and> stream_bit packed (c + n)"
  by (auto simp: window_def bit_horner_sum_bit_word_iff)

lemma bit_wc_value:
  "bit (wc_value packed b m) n \<longleftrightarrow> n < 16 \<and> n < b \<and> stream_bit packed (m * b + n)"
  by (auto simp: wc_value_def bit_horner_sum_bit_word_iff)

lemma bit_field:
  "bit (field b w t) n \<longleftrightarrow> n < 16 \<and> n < b \<and> bit w (t * b + n)"
  by (auto simp: field_def bit_simps)

lemma field_window:
  assumes "c + t * b = m * b" "(t + 1) * b \<le> s" "s \<le> 64"
  shows "field b (window packed c s) t = wc_value packed b m"
proof (rule bit_word_eqI)
  fix n assume "n < LENGTH(16)"
  have lt: "t * b + n < s" if "n < b"
  proof -
    from that have "t * b + n < t * b + b" by simp
    also have "\<dots> = (t + 1) * b" by simp
    finally show ?thesis using assms(2) by linarith
  qed
  have eq: "c + (t * b + n) = m * b + n" using assms(1) by simp
  have "bit (field b (window packed c s) t) n
      \<longleftrightarrow> n < 16 \<and> n < b \<and> stream_bit packed (c + (t * b + n))"
  proof (cases "n < b")
    case True
    with lt assms(3) have "t * b + n < s" "t * b + n < 64" by simp_all
    then show ?thesis by (simp add: bit_field bit_window)
  next
    case False
    then show ?thesis by (simp add: bit_field)
  qed
  also have "\<dots> \<longleftrightarrow> bit (wc_value packed b m) n"
    by (simp only: eq bit_wc_value)
  finally show "bit (field b (window packed c s) t) n = bit (wc_value packed b m) n" .
qed

lemma drop_bit_window:
  assumes "k \<le> s" "s \<le> 64"
  shows "drop_bit k (window packed c s) = window packed (c + k) (s - k)"
proof (rule bit_word_eqI)
  fix n assume "n < LENGTH(64)"
  have eq: "c + (k + n) = c + k + n" by simp
  have "bit (drop_bit k (window packed c s)) n
      \<longleftrightarrow> k + n < 64 \<and> k + n < s \<and> stream_bit packed (c + k + n)"
    by (simp only: bit_drop_bit_eq bit_window eq o_def add.commute [of n k])
  also have "\<dots> \<longleftrightarrow> bit (window packed (c + k) (s - k)) n"
    using assms by (auto simp only: bit_window)
  finally show "bit (drop_bit k (window packed c s)) n = bit (window packed (c + k) (s - k)) n" .
qed

lemma bit_window_or_push:
  "bit (window packed c s OR push_bit s x) n
     \<longleftrightarrow> (n < 64 \<and> n < s \<and> stream_bit packed (c + n)) \<or> (s \<le> n \<and> n < 64 \<and> bit x (n - s))"
  for x :: u64
  by (auto simp only: bit_or_iff bit_window bit_push_bit_iff dest: bit_imp_le_length) simp_all

lemma bit_low32: "bit (x AND 0xffffffff) n \<longleftrightarrow> n < 32 \<and> bit x n" for x :: u64
proof -
  have "(0xffffffff :: u64) = mask 32" by (simp add: mask_eq_exp_minus_1)
  then show ?thesis by (auto simp only: bit_and_iff bit_mask_iff) simp_all
qed

lemma stream_bit_word:
  "iin < length packed \<Longrightarrow> n < 64 \<Longrightarrow> stream_bit packed (64 * iin + n) = bit (packed ! iin) n"
  by (simp add: stream_bit_def)

lemma feed_low:
  assumes "iin < length packed" "c + s = 64 * iin" "s + 32 \<le> 64"
  shows "window packed c s OR push_bit s (packed ! iin AND 0xffffffff) = window packed c (s + 32)"
proof (rule bit_word_eqI)
  fix n assume n: "n < LENGTH(64)"
  have L: "bit (window packed c s OR push_bit s (packed ! iin AND 0xffffffff)) n
      \<longleftrightarrow> (n < 64 \<and> n < s \<and> stream_bit packed (c + n))
         \<or> (s \<le> n \<and> n < 64 \<and> n - s < 32 \<and> bit (packed ! iin) (n - s))"
    by (simp only: bit_window_or_push bit_low32)
  show "bit (window packed c s OR push_bit s (packed ! iin AND 0xffffffff)) n
      = bit (window packed c (s + 32)) n"
  proof (cases "n < s")
    case True
    then show ?thesis unfolding L bit_window by auto
  next
    case False
    then have "c + n = 64 * iin + (n - s)" using assms(2) by simp
    moreover have "n - s < 64" using n by simp
    ultimately have "stream_bit packed (c + n) = bit (packed ! iin) (n - s)"
      using stream_bit_word [OF assms(1), of "n - s"] by simp
    then show ?thesis unfolding L bit_window using False n by auto
  qed
qed

lemma feed_high:
  assumes "iin < length packed" "c + s = 64 * iin + 32" "s + 32 \<le> 64"
  shows "window packed c s OR push_bit s (drop_bit 32 (packed ! iin)) = window packed c (s + 32)"
proof (rule bit_word_eqI)
  fix n assume n: "n < LENGTH(64)"
  have L: "bit (window packed c s OR push_bit s (drop_bit 32 (packed ! iin))) n
      \<longleftrightarrow> (n < 64 \<and> n < s \<and> stream_bit packed (c + n))
         \<or> (s \<le> n \<and> n < 64 \<and> bit (packed ! iin) (32 + (n - s)))"
    by (simp only: bit_window_or_push bit_drop_bit_eq o_def)
  show "bit (window packed c s OR push_bit s (drop_bit 32 (packed ! iin))) n
      = bit (window packed c (s + 32)) n"
  proof (cases "n < s")
    case True
    then show ?thesis unfolding L bit_window by auto
  next
    case False
    show ?thesis
    proof (cases "n < s + 32")
      case True
      then have "c + n = 64 * iin + (32 + (n - s))" using assms(2) False by simp
      moreover have "32 + (n - s) < 64" using True False by simp
      ultimately have "stream_bit packed (c + n) = bit (packed ! iin) (32 + (n - s))"
        using stream_bit_word [OF assms(1), of "32 + (n - s)"] by simp
      then show ?thesis unfolding L bit_window using False True n by auto
    next
      case False
      then have "\<not> bit (packed ! iin) (32 + (n - s))"
        using bit_imp_le_length [of "packed ! iin" "32 + (n - s)"] by auto
      then show ?thesis unfolding L bit_window using False n by auto
    qed
  qed
qed

section \<open>\<^verbatim>\<open>unpack_block_idxs_wc\<close> computes the with-carry values\<close>

lemma wc_extract_window:
  assumes "unat idxBits = b" "1 \<le> b" "b \<le> 16" "unat bufSize = s" "s \<le> 64"
    "iout < 4096" "length u = 4096" "\<forall>j<iout. u ! j = wc_value packed b j"
  shows "\<exists>u'. length u' = 4096
     \<and> (\<forall>j<4096. j < iout + s div b \<longrightarrow> u' ! j = wc_value packed b j)
     \<and> wc_extract idxBits (window packed (iout * b) s) bufSize iout u =
         (if 4096 \<le> iout + s div b then Some (Returned_wc u')
          else Some (Drained_wc (window packed ((iout + s div b) * b) (s mod b))
                 (of_nat (s mod b)) (iout + s div b) u'))"
proof -
  let ?k = "s div b"
  let ?w = "window packed (iout * b) s"
  from wc_extract_general [OF assms(2,3,1,4,6,7), of ?w]
  obtain u' where u': "length u' = 4096"
    "\<forall>j<4096. u' ! j = (if iout \<le> j \<and> j < iout + ?k then field b ?w (j - iout) else u ! j)"
    "wc_extract idxBits ?w bufSize iout u =
       (if 4096 \<le> iout + ?k then Some (Returned_wc u')
        else Some (Drained_wc (drop_bit (?k * b) ?w) (of_nat (s mod b)) (iout + ?k) u'))"
    by blast
  have kb: "?k * b \<le> s" by simp
  have "\<forall>j<4096. j < iout + ?k \<longrightarrow> u' ! j = wc_value packed b j"
  proof (intro allI impI)
    fix j :: nat assume j: "j < 4096" "j < iout + ?k"
    show "u' ! j = wc_value packed b j"
    proof (cases "iout \<le> j")
      case False
      with u'(2) j assms(8) show ?thesis by simp
    next
      case True
      define t where "t = j - iout"
      have jt: "j = iout + t" using True by (simp add: t_def)
      have "t + 1 \<le> ?k" using j(2) jt by simp
      then have "(t + 1) * b \<le> ?k * b" by (rule mult_le_mono1)
      with kb have 1: "(t + 1) * b \<le> s" by linarith
      have 2: "iout * b + t * b = j * b" by (simp add: jt add_mult_distrib)
      from field_window [OF 2 1 assms(5)] u'(2) j True show ?thesis
        by (simp add: t_def)
    qed
  qed
  moreover have "drop_bit (?k * b) ?w = window packed ((iout + ?k) * b) (s mod b)"
  proof -
    have "s - ?k * b = s mod b" by (simp add: minus_div_mult_eq_mod)
    with drop_bit_window [OF kb assms(5), of packed "iout * b"] show ?thesis
      by (simp add: add_mult_distrib)
  qed
  ultimately show ?thesis using u'(1,3) by auto
qed

lemma wc_loop_correct:
  assumes b: "unat idxBits = b" "1 \<le> b" "b \<le> 16"
  shows "unat bufSize = s \<Longrightarrow> s < b \<Longrightarrow> iout * b + s = 64 * iin \<Longrightarrow> iout < 4096
    \<Longrightarrow> length u = 4096 \<Longrightarrow> \<forall>j<iout. u ! j = wc_value packed b j
    \<Longrightarrow> wc_loop idxBits packed (window packed (iout * b) s) bufSize iin iout u =
        (if 64 * b \<le> length packed then Some (map (wc_value packed b) [0..<4096]) else None)"
proof (induction "length packed - iin" arbitrary: iin iout s bufSize u rule: less_induct)
  case less
  note s = less.prems(1) and sb = less.prems(2) and bits = less.prems(3)
    and io = less.prems(4) and len = less.prems(5) and inv = less.prems(6)
  have full: "u' = map (wc_value packed b) [0..<4096]"
    if "length u' = 4096" "\<forall>j<4096. u' ! j = wc_value packed b j" for u'
    using that by (intro nth_equalityI) simp_all
  have "iout * b \<le> 4095 * b" using io by (intro mult_le_mono1) simp
  with bits sb have iin: "iin < 64 * b" by linarith
  show ?case
  proof (cases "iin < length packed")
    case False
    with iin show ?thesis
      by (simp add: wc_loop.simps [of idxBits packed _ bufSize iin iout u])
  next
    case True
    let ?pb = "window packed (iout * b) s"
    have s16: "s < 16" using sb b(3) by simp
    have f1: "wc_feed ?pb bufSize (packed ! iin AND 0xffffffff)
        = Some (window packed (iout * b) (s + 32), bufSize + 32)"
      using s s16 feed_low [OF True bits] by (simp add: wc_feed_def)
    have bs1: "unat (bufSize + 32) = s + 32"
      using s s16 by (simp add: unat_word_ariths)
    define k1 where "k1 = (s + 32) div b"
    define s2 where "s2 = (s + 32) mod b"
    have s2: "s2 < b" "s2 < 16" "k1 * b + s2 = s + 32"
      using b(2,3) by (simp_all add: s2_def k1_def less_le_trans [OF mod_less_divisor])
    have "s + 32 \<le> 64" using s16 by simp
    from wc_extract_window [OF b bs1 this io len inv]
    obtain u1 where u1: "length u1 = 4096"
      "\<forall>j<4096. j < iout + k1 \<longrightarrow> u1 ! j = wc_value packed b j"
      "wc_extract idxBits (window packed (iout * b) (s + 32)) (bufSize + 32) iout u =
         (if 4096 \<le> iout + k1 then Some (Returned_wc u1)
          else Some (Drained_wc (window packed ((iout + k1) * b) s2) (of_nat s2) (iout + k1) u1))"
      unfolding k1_def s2_def by blast
    have bits2: "(iout + k1) * b + s2 = 64 * iin + 32"
      using s2(3) bits by (simp add: add_mult_distrib)
    show ?thesis
    proof (cases "4096 \<le> iout + k1")
      case ret: True
      then have "4096 * b \<le> (iout + k1) * b" by (rule mult_le_mono1)
      with bits2 have "64 * b \<le> iin" by linarith
      with True have "64 * b \<le> length packed" by simp
      moreover have "u1 = map (wc_value packed b) [0..<4096]"
        using u1(1,2) ret by (intro full) auto
      ultimately show ?thesis
        using True f1 u1(3) ret
        by (simp add: wc_loop.simps [of idxBits packed _ bufSize iin iout u])
    next
      case nret: False
      then have io2: "iout + k1 < 4096" by simp
      have bs2: "unat (of_nat s2 :: u32) = s2"
        using s2(2) by (simp add: unat_of_nat)
      have f2: "wc_feed (window packed ((iout + k1) * b) s2) (of_nat s2) (drop_bit 32 (packed ! iin))
        = Some (window packed ((iout + k1) * b) (s2 + 32), of_nat s2 + 32)"
        using bs2 s2(2) feed_high [OF True bits2] by (simp add: wc_feed_def)
      have bs3: "unat (of_nat s2 + 32 :: u32) = s2 + 32"
        using bs2 s2(2) by (simp add: unat_word_ariths)
      define k3 where "k3 = (s2 + 32) div b"
      define s4 where "s4 = (s2 + 32) mod b"
      have s4: "s4 < b" "s4 < 16" "k3 * b + s4 = s2 + 32"
        using b(2,3) by (simp_all add: s4_def k3_def less_le_trans [OF mod_less_divisor])
      have inv2: "\<forall>j<iout + k1. u1 ! j = wc_value packed b j"
        using u1(2) io2 by auto
      have "s2 + 32 \<le> 64" using s2(2) by simp
      from wc_extract_window [OF b bs3 this io2 u1(1) inv2]
      obtain u3 where u3: "length u3 = 4096"
        "\<forall>j<4096. j < iout + k1 + k3 \<longrightarrow> u3 ! j = wc_value packed b j"
        "wc_extract idxBits (window packed ((iout + k1) * b) (s2 + 32)) (of_nat s2 + 32) (iout + k1) u1 =
           (if 4096 \<le> iout + k1 + k3 then Some (Returned_wc u3)
            else Some (Drained_wc (window packed ((iout + k1 + k3) * b) s4) (of_nat s4)
                   (iout + k1 + k3) u3))"
        unfolding k3_def s4_def by blast
      have bits4: "(iout + k1 + k3) * b + s4 = 64 * (iin + 1)"
        using s4(3) bits2 by (simp add: add_mult_distrib)
      show ?thesis
      proof (cases "4096 \<le> iout + k1 + k3")
        case ret: True
        then have "4096 * b \<le> (iout + k1 + k3) * b" by (rule mult_le_mono1)
        also have "\<dots> \<le> 64 * (iin + 1)" using bits4 by simp
        finally have "64 * b \<le> iin + 1" by simp
        with True have "64 * b \<le> length packed" by simp
        moreover have "u3 = map (wc_value packed b) [0..<4096]"
          using u3(1,2) ret by (intro full) auto
        ultimately show ?thesis
          using True f1 u1(3) nret f2 u3(3) ret
          by (simp add: wc_loop.simps [of idxBits packed _ bufSize iin iout u])
      next
        case nret3: False
        have bs4: "unat (of_nat s4 :: u32) = s4"
          using s4(2) by (simp add: unat_of_nat)
        have inv4: "\<forall>j<iout + k1 + k3. u3 ! j = wc_value packed b j"
          using u3(2) nret3 by auto
        have "wc_loop idxBits packed (window packed ((iout + k1 + k3) * b) s4) (of_nat s4)
            (iin + 1) (iout + k1 + k3) u3 =
          (if 64 * b \<le> length packed then Some (map (wc_value packed b) [0..<4096]) else None)"
          by (rule less.hyps [OF _ bs4 s4(1) bits4 _ u3(1) inv4]) (use True nret3 in simp_all)
        then show ?thesis
          using True f1 u1(3) nret f2 u3(3) nret3
          by (simp add: wc_loop.simps [of idxBits packed _ bufSize iin iout u])
      qed
    qed
  qed
qed

section \<open>\<^verbatim>\<open>unpack_block_idxs_nc\<close> computes the no-carry values\<close>

lemma bit_nc_value:
  "bit (nc_value packed b m) n \<longleftrightarrow>
     n < 16 \<and> n < b \<and> stream_bit packed (m div (64 div b) * 64 + m mod (64 div b) * b + n)"
  by (auto simp: nc_value_def bit_horner_sum_bit_word_iff)

lemma nc_word_wc_extract:
  "nc_word idxBits i buf iout u = map_option nc_of_wc (wc_extract idxBits buf i iout u)"
proof (induction idxBits buf i iout u rule: wc_extract.induct)
  case (1 idxBits packBuf bufSize iout unpacked)
  show ?case
  proof (cases "idxBits \<le> bufSize \<and> iout < length unpacked \<and> \<not> 16 * 16 * 16 \<le> iout + 1")
    case True
    with "1.IH" [OF _ _ refl refl] show ?thesis
      by (simp add: nc_word.simps [of idxBits bufSize packBuf iout unpacked]
          wc_extract.simps [of idxBits packBuf bufSize iout unpacked])
  next
    case False
    then show ?thesis
      by (auto simp: nc_word.simps [of idxBits bufSize packBuf iout unpacked]
          wc_extract.simps [of idxBits packBuf bufSize iout unpacked])
  qed
qed

lemma field_word:
  assumes "iin < length packed" "t < 64 div b" "1 \<le> b"
  shows "field b (packed ! iin) t = nc_value packed b (iin * (64 div b) + t)"
proof (rule bit_word_eqI)
  fix n assume "n < LENGTH(16)"
  let ?k = "64 div b"
  have m: "(iin * ?k + t) div ?k = iin" "(iin * ?k + t) mod ?k = t"
    using assms(2) by simp_all
  show "bit (field b (packed ! iin) t) n = bit (nc_value packed b (iin * ?k + t)) n"
  proof (cases "n < b")
    case True
    then have "t * b + n < t * b + b" by simp
    also have "\<dots> = (t + 1) * b" by simp
    also have "\<dots> \<le> ?k * b" using assms(2) by (intro mult_le_mono1) simp
    also have "\<dots> \<le> 64" by simp
    finally have lt: "t * b + n < 64" .
    have "iin * 64 + t * b + n = 64 * iin + (t * b + n)" by simp
    with stream_bit_word [OF assms(1) lt] show ?thesis
      by (simp only: bit_field bit_nc_value m)
  next
    case False
    then show ?thesis by (simp add: bit_field bit_nc_value)
  qed
qed

lemma nc_word_correct:
  assumes "unat idxBits = b" "1 \<le> b" "b \<le> 16" "iin < length packed"
    "iin * (64 div b) < 4096" "length u = 4096"
    "\<forall>j<iin * (64 div b). u ! j = nc_value packed b j"
  shows "\<exists>u'. length u' = 4096
     \<and> (\<forall>j<4096. j < (iin + 1) * (64 div b) \<longrightarrow> u' ! j = nc_value packed b j)
     \<and> nc_word idxBits 64 (packed ! iin) (iin * (64 div b)) u =
         (if 4096 \<le> (iin + 1) * (64 div b) then Some (Returned_nc u')
          else Some (Next_nc ((iin + 1) * (64 div b)) u'))"
proof -
  let ?k = "64 div b"
  let ?io = "iin * ?k"
  have "unat (64 :: u32) = 64" by simp
  from wc_extract_general [OF assms(2,3,1) this assms(5,6), of "packed ! iin"]
  obtain u' where u': "length u' = 4096"
    "\<forall>j<4096. u' ! j = (if ?io \<le> j \<and> j < ?io + ?k then field b (packed ! iin) (j - ?io) else u ! j)"
    "wc_extract idxBits (packed ! iin) 64 ?io u =
       (if 4096 \<le> ?io + ?k then Some (Returned_wc u')
        else Some (Drained_wc (drop_bit (?k * b) (packed ! iin)) (of_nat (64 mod b)) (?io + ?k) u'))"
    by blast
  have "\<forall>j<4096. j < (iin + 1) * ?k \<longrightarrow> u' ! j = nc_value packed b j"
  proof (intro allI impI)
    fix j :: nat assume j: "j < 4096" "j < (iin + 1) * ?k"
    show "u' ! j = nc_value packed b j"
    proof (cases "?io \<le> j")
      case False
      with u'(2) j assms(7) show ?thesis by simp
    next
      case True
      then have "j - ?io < ?k" "?io + (j - ?io) = j" using j(2) by simp_all
      with field_word [OF assms(4) this(1) assms(2)] u'(2) j True show ?thesis by simp
    qed
  qed
  then show ?thesis using u'(1,3)
    by (intro exI [of _ u']) (simp add: nc_word_wc_extract)
qed

lemma nc_loop_correct:
  assumes b: "unat idxBits = b" "1 \<le> b" "b \<le> 16"
  shows "iin * (64 div b) < 4096 \<Longrightarrow> length u = 4096
    \<Longrightarrow> \<forall>j<iin * (64 div b). u ! j = nc_value packed b j
    \<Longrightarrow> nc_loop idxBits packed iin (iin * (64 div b)) u =
        (if 4096 \<le> length packed * (64 div b) then Some (map (nc_value packed b) [0..<4096])
         else None)"
proof (induction "length packed - iin" arbitrary: iin u rule: less_induct)
  case less
  let ?k = "64 div b"
  note io = less.prems(1) and len = less.prems(2) and inv = less.prems(3)
  show ?case
  proof (cases "iin < length packed")
    case False
    then have "length packed * ?k \<le> iin * ?k" by (intro mult_le_mono1) simp
    with io have "\<not> 4096 \<le> length packed * ?k" by linarith
    with False show ?thesis
      by (simp add: nc_loop.simps [of idxBits packed iin])
  next
    case True
    from nc_word_correct [OF b True io len inv]
    obtain u' where u': "length u' = 4096"
      "\<forall>j<4096. j < (iin + 1) * ?k \<longrightarrow> u' ! j = nc_value packed b j"
      "nc_word idxBits 64 (packed ! iin) (iin * ?k) u =
         (if 4096 \<le> (iin + 1) * ?k then Some (Returned_nc u')
          else Some (Next_nc ((iin + 1) * ?k) u'))"
      by blast
    have le: "(iin + 1) * ?k \<le> length packed * ?k"
      using True by (intro mult_le_mono1) simp
    show ?thesis
    proof (cases "4096 \<le> (iin + 1) * ?k")
      case ret: True
      have "u' = map (nc_value packed b) [0..<4096]"
        using u'(1,2) ret by (intro nth_equalityI) auto
      with True ret le u'(3) show ?thesis
        by (simp add: nc_loop.simps [of idxBits packed iin])
    next
      case nret: False
      have "nc_loop idxBits packed (iin + 1) ((iin + 1) * ?k) u' =
        (if 4096 \<le> length packed * ?k then Some (map (nc_value packed b) [0..<4096]) else None)"
        by (rule less.hyps) (use True nret u' in auto)
      with True nret u'(3) show ?thesis
        by (simp add: nc_loop.simps [of idxBits packed iin])
    qed
  qed
qed

section \<open>\<^verbatim>\<open>dsci_v2\<close> as a list of increments\<close>

lemma unat_mult16_le: "unat (ySection * 16) \<le> 4294967280" for ySection :: u32
proof -
  have "unat (ySection * 16) = (unat ySection * 16) mod (268435456 * 16)"
    by (simp add: unat_word_ariths)
  also have "\<dots> = (unat ySection mod 268435456) * 16"
    by (rule mult_mod_left [symmetric])
  also have "\<dots> \<le> 268435455 * 16"
    by (intro mult_le_mono1) (simp add: less_Suc_eq_le [symmetric])
  finally show ?thesis by simp
qed

lemma unat_u32_le: "unat x \<le> 4294967295" for x :: u32
  using unsigned_less [of x, where 'a = nat] by simp

lemma section_index_eq:
  assumes "y < 16"
  shows "section_index idLim ySection y bid = layer_index idLim ySection y (unat bid)"
proof -
  let ?a = "unat (ySection * 16)"
  have a: "?a + y \<le> 4294967295" using unat_mult16_le [of ySection] assms by simp
  have "(?a + y) * unat idLim \<le> 4294967295 * 4294967295"
    using a unat_u32_le [of idLim] by (rule mult_le_mono)
  with unat_u32_le [of bid] have lt: "(?a + y) * unat idLim + unat bid < 2 ^ 64" by simp
  define A :: size_t where "A = ucast (ySection * 16)"
  define L :: size_t where "L = ucast idLim"
  define B :: size_t where "B = ucast bid"
  define Y :: size_t where "Y = of_nat y"
  have A: "unat A = ?a"
    using unat_u32_le [of "ySection * 16"] by (simp add: A_def unsigned_ucast_eq take_bit_eq_mod)
  have L: "unat L = unat idLim"
    using unat_u32_le [of idLim] by (simp add: L_def unsigned_ucast_eq take_bit_eq_mod)
  have B: "unat B = unat bid"
    using unat_u32_le [of bid] by (simp add: B_def unsigned_ucast_eq take_bit_eq_mod)
  have Y: "unat Y = y" using assms by (simp add: Y_def unat_of_nat)
  have 1: "unat (A + Y) = ?a + y"
    using a by (simp add: A Y iffD1 [OF unat_add_lem])
  have "unat (A + Y) * unat L < 2 ^ LENGTH(64)" using lt by (simp add: 1 L)
  then have 2: "unat ((A + Y) * L) = (?a + y) * unat idLim"
    by (simp only: iffD1 [OF unat_mult_lem] 1 L)
  have "unat ((A + Y) * L) + unat B < 2 ^ LENGTH(64)" using lt by (simp add: 2 B)
  then have "unat ((A + Y) * L + B) = (?a + y) * unat idLim + unat bid"
    by (simp only: iffD1 [OF unat_add_lem] 2 B)
  then show ?thesis
    by (simp add: section_index_def layer_index_def A_def L_def B_def Y_def)
qed

lemma unat_shift_nibble:
  fixes x :: u32
  assumes "unat x < 16" "n \<le> 16"
  shows "unat (push_bit n x) = unat x * 2 ^ n"
proof -
  have "(2::nat) ^ n \<le> 2 ^ 16" using assms(2) by (intro power_increasing) simp_all
  then have "unat x * 2 ^ n \<le> 15 * 2 ^ 16"
    using assms(1) by (intro mult_le_mono) simp_all
  then have "unat x * 2 ^ n < 2 ^ 32" by simp
  moreover have "unat (push_bit n x) = (unat x * 2 ^ n) mod 2 ^ 32"
    by (simp only: unsigned_push_bit_eq) (simp add: take_bit_eq_mod push_bit_eq_mult)
  ultimately show ?thesis by simp
qed

lemma nat_concat4:
  fixes a b c d :: nat
  assumes "a < 16" "b < 16" "c < 256" "d < 16"
  shows "a * 65536 OR b * 4096 OR c * 16 OR d = a * 65536 + b * 4096 + c * 16 + d"
proof -
  have 1: "c * 16 OR d = c * 16 + d"
    using nat_shift_or [of d 4 c] assms by (simp add: push_bit_eq_mult)
  have "c * 16 + d < 2 ^ 12" using assms by simp
  from nat_shift_or [OF this, of b] have 2: "b * 4096 OR (c * 16 + d) = b * 4096 + (c * 16 + d)"
    by (simp add: push_bit_eq_mult)
  have "b * 4096 + (c * 16 + d) < 2 ^ 16" using assms by simp
  from nat_shift_or [OF this, of a]
  have 3: "a * 65536 OR (b * 4096 + (c * 16 + d)) = a * 65536 + (b * 4096 + (c * 16 + d))"
    by (simp add: push_bit_eq_mult)
  show ?thesis by (simp only: 1 2 3 add.assoc)
qed

lemma unat_v2_bid1:
  "unat (v2_bid1 blocks add add2 metadata idx) =
     unat (add2 ! idx) mod 16 * 65536 + unat (add ! idx) mod 16 * 4096
       + unat (blocks ! (idx * 2)) * 16 + unat (metadata ! idx) mod 16"
proof -
  have n: "unat (NIBBLE_LO x) < 16" for x by (simp add: unat_NIBBLE_LO)
  have "unat (v2_bid1 blocks add add2 metadata idx) =
     unat (add2 ! idx) mod 16 * 65536 OR unat (add ! idx) mod 16 * 4096
       OR unat (blocks ! (idx * 2)) * 16 OR unat (metadata ! idx) mod 16"
    using unat_shift_nibble [OF n, of 16] unat_shift_nibble [OF n, of 12]
    by (simp only: v2_bid1_def unsigned_or_eq unat_shift4_byte unat_NIBBLE_LO add_0_right) simp
  also have "\<dots> = unat (add2 ! idx) mod 16 * 65536 + unat (add ! idx) mod 16 * 4096
       + unat (blocks ! (idx * 2)) * 16 + unat (metadata ! idx) mod 16"
    by (rule nat_concat4) (simp_all add: unat_byte_less)
  finally show ?thesis .
qed

lemma unat_v2_bid2:
  "unat (v2_bid2 blocks add add2 metadata idx) =
     unat (add2 ! idx) div 16 * 65536 + unat (add ! idx) div 16 * 4096
       + unat (blocks ! (idx * 2 + 1)) * 16 + unat (metadata ! idx) div 16"
proof -
  have d: "unat x div 16 < 16" for x :: u8 using unat_byte_less [of x] by simp
  have n: "unat (NIBBLE_HI x) < 16" for x by (simp add: unat_NIBBLE_HI d)
  have "unat (v2_bid2 blocks add add2 metadata idx) =
     unat (add2 ! idx) div 16 * 65536 OR unat (add ! idx) div 16 * 4096
       OR unat (blocks ! (idx * 2 + 1)) * 16 OR unat (metadata ! idx) div 16"
    using unat_shift_nibble [OF n, of 16] unat_shift_nibble [OF n, of 12]
    by (simp only: v2_bid2_def unsigned_or_eq unat_shift4_byte unat_NIBBLE_HI) simp
  also have "\<dots> = unat (add2 ! idx) div 16 * 65536 + unat (add ! idx) div 16 * 4096
       + unat (blocks ! (idx * 2 + 1)) * 16 + unat (metadata ! idx) div 16"
    by (rule nat_concat4) (simp_all add: unat_byte_less d)
  finally show ?thesis .
qed

lemma v2_body_incr_all:
  assumes "v2_arrays blocks add add2 metadata" "y < 16" "zx < 128"
  shows "v2_body idLim ySection blocks add add2 metadata y zx h =
     incr_all [v2_cell_index idLim ySection blocks add add2 metadata (y, 2 * zx),
               v2_cell_index idLim ySection blocks add add2 metadata (y, 2 * zx + 1)] h"
proof -
  let ?idx = "zx + y * 128"
  from assms have r: "?idx < length add2" "?idx < length add" "?idx * 2 + 1 < length blocks"
    "?idx < length metadata" by (auto simp: v2_arrays_def)
  have e: "(2 * zx + y * 256) div 2 = ?idx" "(2 * zx + 1 + y * 256) div 2 = ?idx"
    "2 * zx + y * 256 = ?idx * 2" "2 * zx + 1 + y * 256 = ?idx * 2 + 1"
    by presburger+
  have ev: "even (2 * zx)" "\<not> even (2 * zx + 1)" by simp_all
  have d: "?idx * 2 div 2 = ?idx" "(?idx * 2 + 1) div 2 = ?idx" by simp_all
  have i1: "section_index idLim ySection y (v2_bid1 blocks add add2 metadata ?idx)
      = v2_cell_index idLim ySection blocks add add2 metadata (y, 2 * zx)"
    by (simp only: section_index_eq [OF assms(2)] unat_v2_bid1 v2_cell_index_def v2_cell_id_def
        Let_def fst_conv snd_conv e(3,4) d ev if_True if_False)
  have i2: "section_index idLim ySection y (v2_bid2 blocks add add2 metadata ?idx)
      = v2_cell_index idLim ySection blocks add add2 metadata (y, 2 * zx + 1)"
    by (simp only: section_index_eq [OF assms(2)] unat_v2_bid2 v2_cell_index_def v2_cell_id_def
        Let_def fst_conv snd_conv e(3,4) d ev if_True if_False)
  have "16 * 16 div 2 = (128::nat)" by simp
  then show ?thesis
    unfolding v2_body_def Let_def using r i1 i2
    by (simp only: if_True simp_thms incr_all_two)
qed

lemma dsci_v2_incr_all:
  assumes "v2_arrays blocks add add2 metadata"
  shows "dsci_v2 h idLim ySection blocks add add2 metadata =
     incr_all (map (v2_cell_index idLim ySection blocks add add2 metadata) section_cells) h"
proof -
  let ?ci = "v2_cell_index idLim ySection blocks add add2 metadata"
  have inner: "for_each [0..<128] (\<lambda>zx. v2_body idLim ySection blocks add add2 metadata y zx) h' =
      incr_all (map (\<lambda>j. ?ci (y, j)) [0..<256]) h'"
    if "y < 16" for y h'
  proof -
    have "for_each [0..<128] (\<lambda>zx. v2_body idLim ySection blocks add add2 metadata y zx) h' =
       incr_all (concat (map (\<lambda>zx. [?ci (y, 2 * zx), ?ci (y, 2 * zx + 1)]) [0..<128])) h'"
      by (rule for_each_incr_all) (use assms that in \<open>auto simp: v2_body_incr_all\<close>)
    also have "concat (map (\<lambda>zx. [?ci (y, 2 * zx), ?ci (y, 2 * zx + 1)]) [0..<128])
       = map (\<lambda>j. ?ci (y, j)) [0..<2 * 128]"
      by (rule map_pairs [of "\<lambda>j. ?ci (y, j)" 128])
    finally show ?thesis by simp
  qed
  have "for_each [0..<16]
       (\<lambda>y. for_each [0..<128] (\<lambda>zx. v2_body idLim ySection blocks add add2 metadata y zx)) h =
     incr_all (concat (map (\<lambda>y. map (\<lambda>j. ?ci (y, j)) [0..<256]) [0..<16])) h"
    by (rule for_each_incr_all) (simp add: inner)
  then have "dsci_v2 h idLim ySection blocks add add2 metadata =
     incr_all (concat (map (\<lambda>y. map (\<lambda>j. ?ci (y, j)) [0..<256]) [0..<16])) h"
    by (simp add: dsci_v2_def)
  also have "concat (map (\<lambda>y. map (\<lambda>j. ?ci (y, j)) [0..<256]) [0..<16]) = map ?ci section_cells"
    by (simp add: section_cells_def product_concat_map map_concat comp_def)
  finally show ?thesis .
qed

lemma distinct_section_cells: "distinct section_cells"
  by (simp add: section_cells_def distinct_product)

lemma set_section_cells: "set section_cells = {..<16} \<times> {..<256}"
  by (auto simp: section_cells_def)

lemma length_section_cells: "length section_cells = 4096"
  by (simp add: section_cells_def)

section \<open>\<^verbatim>\<open>dsci_v13\<close>: width search and counting loop\<close>

lemma window_empty: "window packed c 0 = 0"
  by (rule bit_word_eqI) (simp add: bit_window)

lemma unpack_block_idxs_wc_eq:
  assumes "unat idxBits = b" "1 \<le> b" "b \<le> 16" "length u = 4096"
  shows "unpack_block_idxs_wc packed idxBits u =
     (if 64 * b \<le> length packed then Some (map (wc_value packed b) [0..<4096]) else None)"
proof -
  have "\<not> idxBits > 16" using assms(1,3) by (simp add: word_less_nat_alt)
  moreover have "wc_loop idxBits packed (window packed (0 * b) 0) 0 0 0 u =
     (if 64 * b \<le> length packed then Some (map (wc_value packed b) [0..<4096]) else None)"
    by (rule wc_loop_correct [OF assms(1-3)]) (use assms in simp_all)
  ultimately show ?thesis by (simp add: unpack_block_idxs_wc_def window_empty)
qed

lemma unpack_block_idxs_nc_eq:
  assumes "unat idxBits = b" "1 \<le> b" "b \<le> 16" "length u = 4096"
  shows "unpack_block_idxs_nc packed idxBits u =
     (if 4096 \<le> length packed * (64 div b) then Some (map (nc_value packed b) [0..<4096])
      else None)"
proof -
  have "\<not> idxBits > 16" using assms(1,3) by (simp add: word_less_nat_alt)
  moreover have "nc_loop idxBits packed 0 (0 * (64 div b)) u =
     (if 4096 \<le> length packed * (64 div b) then Some (map (nc_value packed b) [0..<4096])
      else None)"
    by (rule nc_loop_correct [OF assms(1-3)]) (use assms in simp_all)
  ultimately show ?thesis by (simp add: unpack_block_idxs_nc_def)
qed

lemma v13_idx_bits_search:
  fixes maxPaletteIdx :: u32
  assumes "unat maxPaletteIdx < 2 ^ 31"
  shows "unat idxBits = w \<Longrightarrow> w \<le> 31 \<Longrightarrow>
     \<exists>r. v13_idx_bits maxPaletteIdx idxBits = Some r \<and> w \<le> unat r \<and> unat r \<le> 31
       \<and> unat maxPaletteIdx + 1 \<le> 2 ^ unat r
       \<and> (\<forall>j. w \<le> j \<and> j < unat r \<longrightarrow> 2 ^ j < unat maxPaletteIdx + 1)"
proof (induction "31 - w" arbitrary: w idxBits)
  case 0
  then have w: "w = 31" by simp
  have m1: "unat (maxPaletteIdx + 1) = unat maxPaletteIdx + 1"
    using assms by (simp add: unat_word_ariths)
  have p: "unat (push_bit 31 1 :: u32) = 2 ^ 31" by simp
  have "\<not> (push_bit (unat idxBits) 1 :: u32) < maxPaletteIdx + 1"
    using assms "0.prems"(1) w by (simp add: word_less_nat_alt m1)
  with "0.prems" w assms show ?case
    by (intro exI [of _ idxBits]) (simp add: v13_idx_bits.simps [of maxPaletteIdx idxBits])
next
  case (Suc n)
  then have w: "w < 31" by simp
  have m1: "unat (maxPaletteIdx + 1) = unat maxPaletteIdx + 1"
    using assms by (simp add: unat_word_ariths)
  have "(2::nat) ^ w < 2 ^ 32" using w by (intro power_strict_increasing) simp_all
  then have p: "unat (push_bit w 1 :: u32) = 2 ^ w"
    by (simp only: unsigned_push_bit_eq) (simp add: take_bit_eq_mod push_bit_eq_mult)
  have c: "(push_bit (unat idxBits) 1 :: u32) < maxPaletteIdx + 1 \<longleftrightarrow> 2 ^ w < unat maxPaletteIdx + 1"
    using Suc.prems(1) by (simp only: word_less_nat_alt m1 p)
  show ?case
  proof (cases "2 ^ w < unat maxPaletteIdx + 1")
    case False
    with c Suc.prems w show ?thesis
      by (intro exI [of _ idxBits]) (simp add: v13_idx_bits.simps [of maxPaletteIdx idxBits])
  next
    case True
    have u: "unat (idxBits + 1) = w + 1"
      using Suc.prems(1) w by (simp add: unat_word_ariths)
    have "n = 31 - (w + 1)" using Suc.hyps(2) by simp
    from Suc.hyps(1) [OF this u] w
    obtain r where r: "v13_idx_bits maxPaletteIdx (idxBits + 1) = Some r" "w + 1 \<le> unat r"
      "unat r \<le> 31" "unat maxPaletteIdx + 1 \<le> 2 ^ unat r"
      "\<forall>j. w + 1 \<le> j \<and> j < unat r \<longrightarrow> 2 ^ j < unat maxPaletteIdx + 1"
      by auto
    have "\<forall>j. w \<le> j \<and> j < unat r \<longrightarrow> 2 ^ j < unat maxPaletteIdx + 1"
    proof (intro allI impI)
      fix j assume "w \<le> j \<and> j < unat r"
      then show "2 ^ j < unat maxPaletteIdx + 1"
        using r(5) True by (cases "j = w") auto
    qed
    with r c True Suc.prems w show ?thesis
      by (intro exI [of _ r]) (simp add: v13_idx_bits.simps [of maxPaletteIdx idxBits])
  qed
qed

lemma v13_body_incr_all:
  assumes "length paletteIdxs = 4096" "\<forall>i<4096. unat (paletteIdxs ! i) < length paletteMap"
    "y < 16" "zx < 256"
  shows "v13_body idLim ySection paletteMap paletteIdxs y zx h =
     incr_all [v13_cell_index idLim ySection paletteMap paletteIdxs (y, zx)] h"
proof -
  have "zx + y * 256 < 4096" using assms(3,4) by simp
  with assms show ?thesis
    by (simp add: v13_body_def Let_def section_index_eq v13_cell_index_def incr_all_one)
qed

lemma v13_count_incr_all:
  assumes "length paletteIdxs = 4096" "\<forall>i<4096. unat (paletteIdxs ! i) < length paletteMap"
  shows "for_each [0..<16]
       (\<lambda>y. for_each [0..<256] (\<lambda>zx. v13_body idLim ySection paletteMap paletteIdxs y zx)) h =
     incr_all (map (v13_cell_index idLim ySection paletteMap paletteIdxs) section_cells) h"
proof -
  let ?ci = "v13_cell_index idLim ySection paletteMap paletteIdxs"
  have inner: "for_each [0..<256] (\<lambda>zx. v13_body idLim ySection paletteMap paletteIdxs y zx) h' =
      incr_all (map (\<lambda>j. ?ci (y, j)) [0..<256]) h'"
    if "y < 16" for y h'
  proof -
    have "for_each [0..<256] (\<lambda>zx. v13_body idLim ySection paletteMap paletteIdxs y zx) h' =
       incr_all (concat (map (\<lambda>zx. [?ci (y, zx)]) [0..<256])) h'"
      by (rule for_each_incr_all) (use assms that in \<open>auto simp: v13_body_incr_all\<close>)
    also have "concat (map (\<lambda>zx. [?ci (y, zx)]) [0..<256]) = map (\<lambda>j. ?ci (y, j)) [0..<256]"
      by (induction "[0..<256::nat]") (simp_all add: concat_map_singleton)
    finally show ?thesis .
  qed
  have "for_each [0..<16]
       (\<lambda>y. for_each [0..<256] (\<lambda>zx. v13_body idLim ySection paletteMap paletteIdxs y zx)) h =
     incr_all (concat (map (\<lambda>y. map (\<lambda>j. ?ci (y, j)) [0..<256]) [0..<16])) h"
    by (rule for_each_incr_all) (simp add: inner)
  also have "concat (map (\<lambda>y. map (\<lambda>j. ?ci (y, j)) [0..<256]) [0..<16]) = map ?ci section_cells"
    by (simp add: section_cells_def product_concat_map map_concat comp_def)
  finally show ?thesis .
qed

section \<open>Packing and unpacking\<close>










lemma map_nth_take: "n \<le> length xs \<Longrightarrow> map (\<lambda>i. xs ! i) [0..<n] = take n xs"
  by (intro nth_equalityI) simp_all








section \<open>Dependence on the input bits\<close>

lemma wc_value_cong:
  assumes "\<forall>i<4096 * b. stream_bit packed' i = stream_bit packed i" "m < 4096"
  shows "wc_value packed' b m = wc_value packed b m"
proof (rule bit_word_eqI)
  fix n assume "n < LENGTH(16)"
  show "bit (wc_value packed' b m) n = bit (wc_value packed b m) n"
  proof (cases "n < b")
    case True
    then have "m * b + n < m * b + b" by simp
    also have "\<dots> = (m + 1) * b" by simp
    also have "\<dots> \<le> 4096 * b" using assms(2) by (intro mult_le_mono1) simp
    finally show ?thesis using assms(1) by (simp add: bit_wc_value)
  next
    case False
    then show ?thesis by (simp add: bit_wc_value)
  qed
qed

lemma nc_value_cong:
  assumes "\<forall>m<4096. \<forall>n<b. stream_bit packed' (nc_pos b m n) = stream_bit packed (nc_pos b m n)"
    "m < 4096"
  shows "nc_value packed' b m = nc_value packed b m"
  using assms by (intro bit_word_eqI) (auto simp: bit_nc_value nc_pos_def)

lemma stream_bit_append:
  "i div 64 < length packed \<Longrightarrow> stream_bit (packed @ extra) i = stream_bit packed i"
  by (simp add: stream_bit_def nth_append)

lemma wc_value_eq_nc_value:
  assumes "b \<in> {4, 8, 16}"
  shows "wc_value packed b m = nc_value packed b m"
proof -
  have kb: "64 div b * b = 64" using assms by auto
  have "m div (64 div b) * 64 = m div (64 div b) * (64 div b) * b"
    by (simp only: mult.assoc kb)
  then have "m div (64 div b) * 64 + m mod (64 div b) * b = (m div (64 div b) * (64 div b) + m mod (64 div b)) * b"
    by (simp only: add_mult_distrib)
  also have "\<dots> = m * b" by (simp only: div_mult_mod_eq)
  finally show ?thesis
    by (intro bit_word_eqI) (simp add: bit_wc_value bit_nc_value)
qed

lemma enough_words_iff:
  assumes "b \<in> {4, 8, 16}"
  shows "4096 \<le> length packed * (64 div b) \<longleftrightarrow> 64 * b \<le> length packed"
  using assms by auto

lemma unpack_wc_eq_nc:
  assumes "unat idxBits \<in> {4, 8, 16}" "length u = 4096"
  shows "unpack_block_idxs_wc packed idxBits u = unpack_block_idxs_nc packed idxBits u"
proof -
  define b where "b = unat idxBits"
  have b: "unat idxBits = b" "1 \<le> b" "b \<le> 16" "b \<in> {4, 8, 16}"
    using assms(1) by (auto simp: b_def)
  have "map (wc_value packed b) [0..<4096] = map (nc_value packed b) [0..<4096]"
    by (simp add: wc_value_eq_nc_value [OF b(4)])
  then show ?thesis
    by (simp only: unpack_block_idxs_wc_eq [OF b(1-3) assms(2)]
        unpack_block_idxs_nc_eq [OF b(1-3) assms(2)] enough_words_iff [OF b(4)])
qed

lemma v13_idx_bits_255: "v13_idx_bits 255 4 = Some 8"
  by (simp add: v13_idx_bits.simps)

section \<open>Width zero and the width guard\<close>

lemma wc_extract_zero:
  "unat idxBits = 0 \<Longrightarrow> iout < 4096 \<Longrightarrow> length u = 4096 \<Longrightarrow>
     \<exists>u'. wc_extract idxBits pb bufSize iout u = Some (Returned_wc u') \<and> length u' = 4096
        \<and> (\<forall>j<4096. u' ! j = (if iout \<le> j then 0 else u ! j))"
proof (induction idxBits pb bufSize iout u rule: wc_extract.induct)
  case (1 idxBits pb bufSize iout u)
  from "1.prems"(1) have z: "idxBits = 0" by (simp add: unat_eq_0)
  have v: "(ucast (pb AND ucast (idx_mask idxBits)) :: u16) = 0"
    by (simp add: z idx_mask_eq)
  let ?u1 = "u[iout := 0]"
  show ?case
  proof (cases "4096 \<le> iout + 1")
    case True
    then have "\<forall>j<4096. ?u1 ! j = (if iout \<le> j then 0 else u ! j)"
      using "1.prems"(2,3) by (auto simp: nth_list_update)
    with True "1.prems" v show ?thesis
      by (intro exI [of _ ?u1]) (simp add: wc_extract.simps [of 0 pb bufSize iout u] z)
  next
    case False
    have "\<exists>u'. wc_extract idxBits (drop_bit (unat idxBits) pb) (bufSize - idxBits) (iout + 1)
          (u[iout := ucast (pb AND ucast (idx_mask idxBits))]) = Some (Returned_wc u')
        \<and> length u' = 4096
        \<and> (\<forall>j<4096. u' ! j = (if iout + 1 \<le> j then 0
              else u[iout := ucast (pb AND ucast (idx_mask idxBits))] ! j))"
      by (rule "1.IH") (use False "1.prems" z in simp_all)
    then obtain u' where u': "wc_extract idxBits (drop_bit (unat idxBits) pb) (bufSize - idxBits)
          (iout + 1) ?u1 = Some (Returned_wc u')" "length u' = 4096"
        "\<forall>j<4096. u' ! j = (if iout + 1 \<le> j then 0 else ?u1 ! j)"
      unfolding v by blast
    have "\<forall>j<4096. u' ! j = (if iout \<le> j then 0 else u ! j)"
      using u'(3) "1.prems"(2,3) by (auto simp: nth_list_update)
    with u'(1,2) False "1.prems" v show ?thesis
      by (intro exI [of _ u']) (simp add: wc_extract.simps [of 0 pb bufSize iout u] z)
  qed
qed

lemma zero_buffer: "length u' = 4096 \<Longrightarrow> \<forall>j<4096. u' ! j = 0 \<Longrightarrow> u' = replicate 4096 0"
  by (intro nth_equalityI) simp_all

lemma unpack_wc_zero_width:
  assumes "1 \<le> length packed" "length u = 4096"
  shows "unpack_block_idxs_wc packed 0 u = Some (replicate 4096 0)"
proof -
  from wc_extract_zero [of 0 0 u "0 OR push_bit (unat (0 :: u32)) (packed ! 0 AND 0xffffffff)" "0 + 32"]
    assms(2)
  obtain u' where u': "wc_extract 0 (0 OR push_bit (unat (0 :: u32)) (packed ! 0 AND 0xffffffff))
      (0 + 32) 0 u = Some (Returned_wc u')" "length u' = 4096" "\<forall>j<4096. u' ! j = 0"
    by auto
  have "packed \<noteq> []" using assms(1) by auto
  with zero_buffer [OF u'(2,3)] u'(1) show ?thesis
    by (simp add: unpack_block_idxs_wc_def wc_loop.simps [of 0 packed 0 0 0 0 u] wc_feed_def)
qed

lemma unpack_nc_zero_width:
  assumes "1 \<le> length packed" "length u = 4096"
  shows "unpack_block_idxs_nc packed 0 u = Some (replicate 4096 0)"
proof -
  from wc_extract_zero [of 0 0 u "packed ! 0" 64] assms(2)
  obtain u' where u': "wc_extract 0 (packed ! 0) 64 0 u = Some (Returned_wc u')"
    "length u' = 4096" "\<forall>j<4096. u' ! j = 0"
    by auto
  have "packed \<noteq> []" using assms(1) by auto
  with zero_buffer [OF u'(2,3)] u'(1) show ?thesis
    by (simp add: unpack_block_idxs_nc_def nc_loop.simps [of 0 packed 0 0 u] nc_word_wc_extract)
qed

lemma unpack_wc_any_width:
  assumes "idxBits \<le> 16" "1024 \<le> length packed" "length u = 4096"
  shows "unpack_block_idxs_wc packed idxBits u = Some (wc_out packed (unat idxBits))"
proof (cases "unat idxBits = 0")
  case True
  then have z: "idxBits = 0" by (simp add: unat_eq_0)
  have "wc_value packed 0 m = 0" for m by (rule bit_word_eqI) (simp add: bit_wc_value)
  then have "wc_out packed 0 = replicate 4096 0"
    by (intro nth_equalityI) (simp_all add: wc_out_def)
  with unpack_wc_zero_width [of packed u] assms z show ?thesis by simp
next
  case False
  have "unat idxBits \<le> 16" using assms(1) by (simp add: word_le_nat_alt)
  with False assms(2) unpack_block_idxs_wc_eq [OF refl _ _ assms(3), of idxBits packed]
  show ?thesis by (simp add: wc_out_def)
qed

lemma words_for_nc:
  fixes n :: nat
  assumes "1 \<le> b" "b \<le> 16" "1024 \<le> n"
  shows "4096 \<le> n * (64 div b)"
proof -
  have "4 * b \<le> 64" using assms(2) by simp
  then have "4 \<le> 64 div b" using assms(1) by (simp add: less_eq_div_iff_mult_less_eq)
  with assms(3) have "1024 * 4 \<le> n * (64 div b)" by (rule mult_le_mono)
  then show ?thesis by simp
qed

lemma unpack_nc_any_width:
  assumes "idxBits \<le> 16" "1024 \<le> length packed" "length u = 4096"
  shows "unpack_block_idxs_nc packed idxBits u = Some (nc_out packed (unat idxBits))"
proof (cases "unat idxBits = 0")
  case True
  then have z: "idxBits = 0" by (simp add: unat_eq_0)
  have "nc_value packed 0 m = 0" for m by (rule bit_word_eqI) (simp add: bit_nc_value)
  then have "nc_out packed 0 = replicate 4096 0"
    by (intro nth_equalityI) (simp_all add: nc_out_def)
  with unpack_nc_zero_width [of packed u] assms z show ?thesis by simp
next
  case False
  have le: "unat idxBits \<le> 16" using assms(1) by (simp add: word_le_nat_alt)
  from False have "1 \<le> unat idxBits" by simp
  from unpack_block_idxs_nc_eq [OF refl this le assms(3), of packed]
    words_for_nc [OF this le assms(2)]
  show ?thesis by (simp add: nc_out_def)
qed

lemma wc_out_cong:
  assumes "\<forall>i<4096 * b. stream_bit packed' i = stream_bit packed i"
  shows "wc_out packed' b = wc_out packed b"
  unfolding wc_out_def using wc_value_cong [OF assms] by simp

lemma nc_out_cong:
  assumes "\<forall>m<4096. \<forall>n<b. stream_bit packed' (nc_pos b m n) = stream_bit packed (nc_pos b m n)"
  shows "nc_out packed' b = nc_out packed b"
  unfolding nc_out_def using nc_value_cong [OF assms] by simp

lemma wc_out_append:
  assumes "64 * b \<le> length packed"
  shows "wc_out (packed @ extra) b = wc_out packed b"
proof (rule wc_out_cong, intro allI impI)
  fix i :: nat assume "i < 4096 * b"
  with assms have "i < 64 * length packed" by simp
  then have "i div 64 < length packed" by (simp add: div_less_iff_less_mult)
  then show "stream_bit (packed @ extra) i = stream_bit packed i" by (rule stream_bit_append)
qed

lemma nc_out_append:
  assumes "1 \<le> b" "b \<le> 64" "4096 \<le> length packed * (64 div b)"
  shows "nc_out (packed @ extra) b = nc_out packed b"
proof (rule nc_out_cong, intro allI impI)
  fix m n :: nat assume m: "m < 4096" and n: "n < b"
  let ?k = "64 div b"
  have k: "0 < ?k" using assms(1,2) by (simp add: div_greater_zero_iff)
  have "m mod ?k * b + n < m mod ?k * b + b" using n by simp
  also have "\<dots> = (m mod ?k + 1) * b" by simp
  also have "\<dots> \<le> ?k * b" using k by (intro mult_le_mono1) (simp add: Suc_leI)
  also have "\<dots> \<le> 64" by simp
  finally have "(m div ?k * 64 + (m mod ?k * b + n)) div 64 = m div ?k" by simp
  moreover have "m div ?k < length packed"
    using m assms(3) k by (simp add: div_less_iff_less_mult)
  ultimately have "nc_pos b m n div 64 < length packed"
    by (simp add: nc_pos_def add.assoc)
  then show "stream_bit (packed @ extra) (nc_pos b m n) = stream_bit packed (nc_pos b m n)"
    by (rule stream_bit_append)
qed

section \<open>Conservation and frame of a list of increments\<close>

lemma incr_all_cells:
  assumes "distinct cells" "\<forall>c\<in>set cells. f c < length h"
  shows "\<exists>h'. incr_all (map f cells) h = Some h' \<and> length h' = length h
     \<and> (\<forall>i<length h. h' ! i = h ! i + of_nat (card {c \<in> set cells. f c = i}))"
proof -
  from assms(2) have "\<forall>t\<in>set (map f cells). t < length h" by simp
  from incr_all_Some [OF this] show ?thesis
    by (simp add: count_list_card [OF assms(1)])
qed

lemma card_cells_le:
  assumes "distinct cells"
  shows "card {c \<in> set cells. P c} \<le> length cells"
proof -
  have "card {c \<in> set cells. P c} \<le> card (set cells)"
    by (intro card_mono) auto
  also have "\<dots> = length cells" using assms by (rule distinct_card)
  finally show ?thesis .
qed

lemma unat_of_nat_count:
  "n < 2 ^ 64 \<Longrightarrow> unat (of_nat n :: u64) = n"
  by (simp add: unat_of_nat)

lemma sum_card_targets:
  fixes f :: "'a \<Rightarrow> nat"
  assumes "distinct cells" "\<forall>c\<in>set cells. f c < n"
  shows "(\<Sum>i<n. card {c \<in> set cells. f c = i}) = length cells"
proof -
  have "(\<Sum>i<n. card {c \<in> set cells. f c = i}) = (\<Sum>i<n. count_list (map f cells) i)"
    by (simp add: count_list_card [OF assms(1)])
  also have "\<dots> = length (filter (\<lambda>t. t < n) (map f cells))"
    by (rule sum_count_list_below)
  also have "filter (\<lambda>t. t < n) (map f cells) = map f cells"
    using assms(2) by (intro filter_True) simp
  finally show ?thesis by simp
qed

lemma incr_all_total:
  assumes "distinct cells" "\<forall>c\<in>set cells. f c < length h" "length cells < 2 ^ 64"
  shows "\<exists>h'. incr_all (map f cells) h = Some h' \<and> length h' = length h
     \<and> (\<Sum>i<length h. unat (h' ! i - h ! i)) = length cells"
proof -
  from incr_all_cells [OF assms(1,2)] obtain h' where h': "incr_all (map f cells) h = Some h'"
    "length h' = length h"
    "\<forall>i<length h. h' ! i = h ! i + of_nat (card {c \<in> set cells. f c = i})"
    by blast
  have "unat (h' ! i - h ! i) = card {c \<in> set cells. f c = i}" if "i < length h" for i
  proof -
    have "card {c \<in> set cells. f c = i} < 2 ^ 64"
      using card_cells_le [OF assms(1), of "\<lambda>c. f c = i"] assms(3) by linarith
    with h'(3) that show ?thesis by (simp add: unat_of_nat_count)
  qed
  then have "(\<Sum>i<length h. unat (h' ! i - h ! i)) = (\<Sum>i<length h. card {c \<in> set cells. f c = i})"
    by (intro sum.cong) simp_all
  also have "\<dots> = length cells" by (rule sum_card_targets [OF assms(1,2)])
  finally show ?thesis using h'(1,2) by blast
qed


section \<open>Regions and well-formed calls\<close>

lemma layer_index_region:
  assumes "y < 16" "ident < unat idLim"
  shows "section_region idLim ySection (layer_index idLim ySection y ident)"
proof -
  let ?L = "unat (ySection * 16)"
  have "(?L + y) * unat idLim + ident < (?L + y) * unat idLim + unat idLim"
    using assms(2) by simp
  also have "\<dots> = (?L + y + 1) * unat idLim" by (simp add: add_mult_distrib)
  also have "\<dots> \<le> (?L + 16) * unat idLim" using assms(1) by (intro mult_le_mono1) simp
  finally have "(?L + y) * unat idLim + ident < (?L + 16) * unat idLim" .
  moreover have "?L * unat idLim \<le> (?L + y) * unat idLim + ident"
    by (simp add: add_mult_distrib)
  ultimately show ?thesis by (simp add: layer_index_def section_region_def)
qed

lemma section_region_less:
  "section_region idLim ySection i \<Longrightarrow>
     (unat (ySection * 16) + 16) * unat idLim \<le> n \<Longrightarrow> i < n"
  by (simp add: section_region_def)

lemma unat_mult16_nowrap:
  fixes ySection :: u32
  assumes "unat ySection * 16 + 16 \<le> 2 ^ 32"
  shows "unat (ySection * 16) = unat ySection * 16"
  using assms by (simp add: unat_word_ariths)

lemma unat_mult16_le_nat: "unat (ySection * 16) \<le> unat ySection * 16" for ySection :: u32
  by (simp add: unat_word_ariths)

lemma v0_targets:
  assumes "c \<in> set v0_cells"
  shows "v0_cell_index blocks metadata c < 128 * 4096"
proof -
  from assms have "snd c < 128" by (auto simp: set_v0_cells)
  with v0_cell_id_less [of blocks metadata "fst c" "snd c"] show ?thesis
    by (simp add: v0_cell_index_def)
qed

lemma v2_targets:
  assumes "v2_wf blockCount idLim ySection blocks add add2 metadata" "c \<in> set section_cells"
  shows "section_region idLim ySection (v2_cell_index idLim ySection blocks add add2 metadata c)"
proof -
  from assms(2) have c: "c \<in> {..<16} \<times> {..<256}" by (simp add: set_section_cells)
  then have "fst c < 16" by auto
  moreover from assms(1) c
  have "v2_cell_id blocks add add2 metadata (fst c) (snd c) < unat idLim"
    unfolding v2_wf_def by blast
  ultimately show ?thesis unfolding v2_cell_index_def by (rule layer_index_region)
qed

lemma v13_width:
  assumes "unat maxPaletteIdx + 1 \<le> 2 ^ 16" "v13_idx_bits maxPaletteIdx 4 = Some idxBits"
  shows "4 \<le> unat idxBits \<and> unat idxBits \<le> 16"
proof -
  have "unat maxPaletteIdx < 2 ^ 31" using assms(1) by simp
  from v13_idx_bits_search [OF this, of 4 4] assms(2)
  have r: "4 \<le> unat idxBits"
    "\<forall>j. 4 \<le> j \<and> j < unat idxBits \<longrightarrow> 2 ^ j < unat maxPaletteIdx + 1"
    by auto
  have "unat idxBits \<le> 16"
  proof (rule ccontr)
    assume "\<not> unat idxBits \<le> 16"
    then have "4 \<le> (16::nat) \<and> 16 < unat idxBits" by simp
    with r(2) have "(2::nat) ^ 16 < unat maxPaletteIdx + 1" by blast
    with assms(1) show False by simp
  qed
  with r(1) show ?thesis by simp
qed

lemma dsci_v13_incr_all:
  assumes "v13_wf blockCount idLim ySection blockStates paletteMap maxPaletteIdx carry stack idxBits"
  shows "(if carry then unpack_block_idxs_wc blockStates idxBits stack
          else unpack_block_idxs_nc blockStates idxBits stack)
       = Some (unpacked_values carry blockStates (unat idxBits))"
    and "dsci_v13 h idLim ySection blockStates paletteMap maxPaletteIdx carry stack =
      incr_all (map (v13_cell_index idLim ySection paletteMap
          (unpacked_values carry blockStates (unat idxBits))) section_cells) h"
proof -
  let ?b = "unat idxBits"
  let ?idxs = "unpacked_values carry blockStates ?b"
  from assms have wf: "length paletteMap = unat maxPaletteIdx + 1"
    "unat maxPaletteIdx + 1 \<le> 2 ^ 16" "v13_idx_bits maxPaletteIdx 4 = Some idxBits"
    "length stack = 4096" "enough_words carry blockStates ?b"
    "\<forall>i\<in>set ?idxs. unat i \<le> unat maxPaletteIdx"
    by (simp_all add: v13_wf_def)
  from v13_width [OF wf(2,3)] have b: "1 \<le> ?b" "?b \<le> 16" by simp_all
  show u: "(if carry then unpack_block_idxs_wc blockStates idxBits stack
          else unpack_block_idxs_nc blockStates idxBits stack) = Some ?idxs"
    using wf(5)
    by (simp add: unpack_block_idxs_wc_eq [OF refl b wf(4)]
        unpack_block_idxs_nc_eq [OF refl b wf(4)] enough_words_def unpacked_values_def
        wc_out_def nc_out_def)
  have len: "length ?idxs = 4096"
    by (simp add: unpacked_values_def wc_out_def nc_out_def)
  have "\<forall>i<4096. unat (?idxs ! i) < length paletteMap"
  proof (intro allI impI)
    fix i :: nat assume "i < 4096"
    with len have "?idxs ! i \<in> set ?idxs" by simp
    with wf(6,1) show "unat (?idxs ! i) < length paletteMap" by fastforce
  qed
  from v13_count_incr_all [OF len this] u wf(3) show
    "dsci_v13 h idLim ySection blockStates paletteMap maxPaletteIdx carry stack =
      incr_all (map (v13_cell_index idLim ySection paletteMap ?idxs) section_cells) h"
    by (simp add: dsci_v13_def)
qed

lemma v13_targets:
  assumes "v13_wf blockCount idLim ySection blockStates paletteMap maxPaletteIdx carry stack idxBits"
    "c \<in> set section_cells"
  shows "section_region idLim ySection (v13_cell_index idLim ySection paletteMap
      (unpacked_values carry blockStates (unat idxBits)) c)"
proof -
  let ?idxs = "unpacked_values carry blockStates (unat idxBits)"
  from assms(2) have c: "fst c < 16" "snd c < 256" by (auto simp: set_section_cells)
  have len: "length ?idxs = 4096"
    by (simp add: unpacked_values_def wc_out_def nc_out_def)
  from c have "snd c + fst c * 256 < 4096" by simp
  with len have "?idxs ! (snd c + fst c * 256) \<in> set ?idxs" by simp
  with assms(1) have "unat (?idxs ! (snd c + fst c * 256)) < length paletteMap"
    by (fastforce simp: v13_wf_def)
  then have "paletteMap ! unat (?idxs ! (snd c + fst c * 256)) \<in> set paletteMap" by simp
  with assms(1) have "paletteMap ! unat (?idxs ! (snd c + fst c * 256)) < idLim"
    by (simp add: v13_wf_def)
  then have "unat (paletteMap ! unat (?idxs ! (snd c + fst c * 256))) < unat idLim"
    by (simp add: word_less_nat_alt)
  with c(1) show ?thesis unfolding v13_cell_index_def by (rule layer_index_region)
qed

section \<open>Concrete inputs\<close>

lemma incr_all_sums:
  assumes "distinct cells" "\<forall>c\<in>set cells. f c < length h" "length cells < 2 ^ 64"
    "\<forall>i<length h. unat (h ! i) + length cells < 2 ^ 64"
  shows "\<exists>h'. incr_all (map f cells) h = Some h'
     \<and> (\<Sum>i<length h. unat (h' ! i)) = (\<Sum>i<length h. unat (h ! i)) + length cells"
proof -
  from incr_all_cells [OF assms(1,2)] obtain h' where h': "incr_all (map f cells) h = Some h'"
    "length h' = length h"
    "\<forall>i<length h. h' ! i = h ! i + of_nat (card {c \<in> set cells. f c = i})"
    by blast
  have "unat (h' ! i) = unat (h ! i) + card {c \<in> set cells. f c = i}" if "i < length h" for i
  proof -
    let ?c = "card {c \<in> set cells. f c = i}"
    have c: "?c \<le> length cells" by (rule card_cells_le [OF assms(1)])
    with assms(3,4) that have "unat (h ! i) + ?c < 2 ^ 64" "?c < 2 ^ 64" by fastforce+
    then have "unat (h ! i) + unat (of_nat ?c :: u64) < 2 ^ LENGTH(64)"
      by (simp add: unat_of_nat_count)
    then have "unat (h ! i + of_nat ?c) = unat (h ! i) + unat (of_nat ?c :: u64)"
      by (simp only: unat_add_lem)
    with h'(3) that \<open>?c < 2 ^ 64\<close> show ?thesis by (simp add: unat_of_nat_count)
  qed
  then have "(\<Sum>i<length h. unat (h' ! i))
      = (\<Sum>i<length h. unat (h ! i) + card {c \<in> set cells. f c = i})"
    by (intro sum.cong) simp_all
  also have "\<dots> = (\<Sum>i<length h. unat (h ! i)) + (\<Sum>i<length h. card {c \<in> set cells. f c = i})"
    by (rule sum.distrib)
  also have "(\<Sum>i<length h. card {c \<in> set cells. f c = i}) = length cells"
    by (rule sum_card_targets [OF assms(1,2)])
  finally show ?thesis using h'(1) by blast
qed

lemma stream_bit_zeros: "\<not> stream_bit (replicate n 0) i"
  by (simp add: stream_bit_def)

lemma wc_value_zeros: "wc_value (replicate n 0) b m = 0"
  by (rule bit_word_eqI) (simp add: bit_wc_value stream_bit_zeros)

lemma wc_out_zeros: "wc_out (replicate n 0) b = replicate 4096 0"
  by (intro nth_equalityI) (simp_all add: wc_out_def wc_value_zeros)

lemma v13_idx_bits_0: "v13_idx_bits 0 4 = Some 4"
  by (simp add: v13_idx_bits.simps)

lemma v0_wf_example: "v0_wf (replicate 524288 0) (replicate 32768 0) (replicate 16384 0)"
  by (simp add: v0_wf_def)

lemma v2_cell_id_zeros:
  "y < 16 \<Longrightarrow> j < 256 \<Longrightarrow>
     v2_cell_id (replicate 4096 0) (replicate 2048 0) (replicate 2048 0) (replicate 2048 0) y j = 0"
  by (simp add: v2_cell_id_def Let_def)

lemma v2_wf_example:
  "1 \<le> unat idLim \<Longrightarrow> (unat (ySection * 16) + 16) * unat idLim \<le> n \<Longrightarrow>
   v2_wf (replicate n 0) idLim ySection (replicate 4096 0) (replicate 2048 0) (replicate 2048 0)
     (replicate 2048 0)"
  by (auto simp: v2_wf_def v2_arrays_def v2_cell_id_zeros)

lemma v13_wf_example:
  "(unat (ySection * 16) + 16) * 1 \<le> n \<Longrightarrow>
   v13_wf (replicate n 0) 1 ySection (replicate 256 0) [0] 0 True (replicate 4096 0) 4"
  by (simp add: v13_wf_def v13_idx_bits_0 enough_words_def unpacked_values_def wc_out_zeros)

lemma v2_cell_index_zeros:
  assumes "c \<in> {..<16} \<times> {..<256}"
  shows "v2_cell_index 1 0x10000000 (replicate 4096 0) (replicate 2048 0) (replicate 2048 0)
     (replicate 2048 0) c = fst c"
proof -
  have "unat (0x10000000 * 16 :: u32) = 0" by simp
  with assms show ?thesis
    by (auto simp: v2_cell_index_def layer_index_def v2_cell_id_zeros)
qed

lemma first_layer_cells: "{c \<in> {..<16} \<times> {..<256}. fst c = (0::nat)} = {0} \<times> {..<256}"
  by auto

lemma no_layer_cells: "{c \<in> {..<16} \<times> {..<256}. fst c = (4294967296::nat)} = {}"
  by auto


lemma nc_value_zeros: "nc_value (replicate n 0) b m = 0"
  by (rule bit_word_eqI) (simp add: bit_nc_value stream_bit_zeros)

lemma nc_out_zeros: "nc_out (replicate n 0) b = replicate 4096 0"
  by (intro nth_equalityI) (simp_all add: nc_out_def nc_value_zeros)

lemma wc_value_ones:
  assumes "(m + 1) * b \<le> 64 * n" "b \<le> 16"
  shows "wc_value (replicate n (- 1)) b m = mask b"
proof (rule bit_word_eqI)
  fix k assume "k < LENGTH(16)"
  have "(m * b + k) div 64 < n" if "k < b"
  proof -
    from that assms(1) have "m * b + k < n * 64" by simp
    then show ?thesis by (simp only: less_mult_imp_div_less)
  qed
  then show "bit (wc_value (replicate n (- 1)) b m) k \<longleftrightarrow> bit (mask b :: u16) k"
    using assms(2) by (auto simp: bit_wc_value stream_bit_def bit_mask_iff)
qed

lemma wc_out_ones:
  assumes "64 * b \<le> n" "b \<le> 16"
  shows "wc_out (replicate n (- 1)) b = replicate 4096 (mask b)"
proof (intro nth_equalityI)
  show "length (wc_out (replicate n (- 1)) b) = length (replicate 4096 (mask b :: u16))"
    by (simp add: wc_out_def)
  fix m assume "m < length (wc_out (replicate n (- 1)) b)"
  then have m: "m < 4096" by (simp add: wc_out_def)
  from m have "m + 1 \<le> 4096" by simp
  then have "(m + 1) * b \<le> 4096 * b" by (rule mult_le_mono1)
  moreover have "64 * (64 * b) \<le> 64 * n" using assms(1) by (rule mult_le_mono2)
  ultimately have "(m + 1) * b \<le> 64 * n" by linarith
  from wc_value_ones [OF this assms(2)] m
  show "wc_out (replicate n (- 1)) b ! m = replicate 4096 (mask b) ! m"
    by (simp add: wc_out_def)
qed

lemma dsci_v13_cells:
  assumes "v13_wf blockCount idLim ySection blockStates paletteMap maxPaletteIdx carry stack idxBits"
  shows "\<exists>h'. dsci_v13 blockCount idLim ySection blockStates paletteMap maxPaletteIdx carry stack
        = Some h'
     \<and> length h' = length blockCount
     \<and> (\<forall>i<length blockCount. h' ! i = blockCount ! i
           + of_nat (card {c \<in> {..<16} \<times> {..<256}.
               (unat (ySection * 16) + fst c) * unat idLim
                 + unat (paletteMap ! unat (unpacked_values carry blockStates (unat idxBits)
                      ! (snd c + fst c * 256))) = i}))"
proof -
  let ?idxs = "unpacked_values carry blockStates (unat idxBits)"
  let ?f = "v13_cell_index idLim ySection paletteMap ?idxs"
  have bound: "(unat (ySection * 16) + 16) * unat idLim \<le> length blockCount"
    using assms by (simp add: v13_wf_def)
  have "\<forall>c\<in>set section_cells. ?f c < length blockCount"
    using v13_targets [OF assms] section_region_less [OF _ bound] by blast
  from incr_all_cells [OF distinct_section_cells this]
  obtain h' where h': "incr_all (map ?f section_cells) blockCount = Some h'"
    "length h' = length blockCount"
    "\<forall>i<length blockCount. h' ! i = blockCount ! i
        + of_nat (card {c \<in> set section_cells. ?f c = i})"
    by blast
  have f: "?f c = (unat (ySection * 16) + fst c) * unat idLim
      + unat (paletteMap ! unat (?idxs ! (snd c + fst c * 256)))" for c
    by (simp add: v13_cell_index_def layer_index_def)
  from dsci_v13_incr_all(2) [OF assms] h' show ?thesis
    by (intro exI [of _ h']) (simp add: f set_section_cells)
qed

lemma v13_wf_zeros_nc:
  "(unat (ySection * 16) + 16) * 1 \<le> n \<Longrightarrow>
   v13_wf (replicate n 0) 1 ySection (replicate 256 0) [0] 0 False (replicate 4096 0) 4"
  by (simp add: v13_wf_def v13_idx_bits_0 enough_words_def unpacked_values_def nc_out_zeros)

lemma v13_wf_ones:
  "v13_wf (replicate 320 0) 10 1 (replicate 320 (- 1)) (replicate 31 0 @ [9]) 31 True
     (replicate 4096 0) 5"
  by (simp add: v13_wf_def v13_idx_bits.simps enough_words_def unpacked_values_def wc_out_ones
      mask_numeral less_Suc_eq_le [symmetric])

lemma ones_layer_cells:
  "{c \<in> {..<16} \<times> {..<256}.
      (unat (1 * 16 :: u32) + fst c) * unat (10 :: u32)
        + unat ((replicate 31 0 @ [9 :: u32])
            ! unat (unpacked_values True (replicate 320 (- 1)) (unat (5 :: u32)) ! (snd c + fst c * 256))) = i}
   = {c \<in> {..<16} \<times> {..<256}. fst c * 10 + 169 = i}"
proof -
  have "(unat (1 * 16 :: u32) + fst c) * unat (10 :: u32)
        + unat ((replicate 31 0 @ [9 :: u32])
            ! unat (unpacked_values True (replicate 320 (- 1)) (unat (5 :: u32)) ! (snd c + fst c * 256)))
      = fst c * 10 + 169" if "c \<in> {..<16} \<times> {..<256}" for c
  proof -
    from that have "snd c + fst c * 256 < 4096" by auto
    then show ?thesis
      by (simp add: unpacked_values_def wc_out_ones mask_numeral nth_append)
  qed
  then show ?thesis by auto
qed

lemma layer_169_cells: "{c \<in> {..<16} \<times> {..<256::nat}. fst c * 10 + 169 = (169::nat)} = {0} \<times> {..<256}"
  by auto

lemma layer_9_cells: "{c \<in> {..<16} \<times> {..<256::nat}. fst c * 10 + 169 = (9::nat)} = {}"
  by auto

lemma zeros_layer_cells_nc:
  "{c \<in> {..<16} \<times> {..<256}.
      (unat (0x10000000 * 16 :: u32) + fst c) * unat (1 :: u32)
        + unat ([0 :: u32]
            ! unat (unpacked_values False (replicate 256 0) (unat (4 :: u32)) ! (snd c + fst c * 256))) = i}
   = {c \<in> {..<16} \<times> {..<256}. fst c = i}"
proof -
  have "(unat (0x10000000 * 16 :: u32) + fst c) * unat (1 :: u32)
        + unat ([0 :: u32]
            ! unat (unpacked_values False (replicate 256 0) (unat (4 :: u32)) ! (snd c + fst c * 256)))
      = fst c" if "c \<in> {..<16} \<times> {..<256}" for c
  proof -
    from that have "snd c + fst c * 256 < 4096" by auto
    then show ?thesis
      by (simp add: unpacked_values_def nc_out_zeros)
  qed
  then show ?thesis by auto
qed

lemma stream_bit_take:
  "i div 64 < n \<Longrightarrow> stream_bit (take n packed) i = stream_bit packed i"
  by (auto simp: stream_bit_def)

lemma wc_out_take: "wc_out (take (64 * b) packed) b = wc_out packed b"
proof (rule wc_out_cong, intro allI impI)
  fix i :: nat assume "i < 4096 * b"
  then have "i < 64 * (64 * b)" by simp
  then have "i div 64 < 64 * b" by (simp add: div_less_iff_less_mult)
  then show "stream_bit (take (64 * b) packed) i = stream_bit packed i" by (rule stream_bit_take)
qed

lemma nc_pos_div:
  assumes "1 \<le> b" "b \<le> 64" "n < b"
  shows "nc_pos b m n div 64 = m div (64 div b)"
proof -
  let ?k = "64 div b"
  have k: "0 < ?k" using assms(1,2) by (simp add: div_greater_zero_iff)
  have "m mod ?k * b + n < m mod ?k * b + b" using assms(3) by simp
  also have "\<dots> = (m mod ?k + 1) * b" by simp
  also have "\<dots> \<le> ?k * b" using k by (intro mult_le_mono1) (simp add: Suc_leI)
  also have "\<dots> \<le> 64" by simp
  finally have "m mod ?k * b + n < 64" .
  then show ?thesis by (simp add: nc_pos_def add.assoc)
qed

lemma nc_out_take:
  assumes "1 \<le> b" "b \<le> 64"
  shows "nc_out (take (4095 div (64 div b) + 1) packed) b = nc_out packed b"
proof (rule nc_out_cong, intro allI impI)
  fix m n :: nat assume m: "m < 4096" and n: "n < b"
  from m have "m div (64 div b) \<le> 4095 div (64 div b)" by (intro div_le_mono) simp
  then have "nc_pos b m n div 64 < 4095 div (64 div b) + 1"
    by (simp add: nc_pos_div [OF assms n])
  then show "stream_bit (take (4095 div (64 div b) + 1) packed) (nc_pos b m n)
      = stream_bit packed (nc_pos b m n)"
    by (rule stream_bit_take)
qed

lemma nc_words_needed:
  fixes b n :: nat
  assumes "1 \<le> b" "b \<le> 64"
  shows "4096 \<le> n * (64 div b) \<longleftrightarrow> 4095 div (64 div b) + 1 \<le> n"
proof -
  let ?k = "64 div b"
  have k: "0 < ?k" using assms by (simp add: div_greater_zero_iff)
  have "4096 \<le> n * ?k \<longleftrightarrow> 4095 < n * ?k" by auto
  also have "\<dots> \<longleftrightarrow> 4095 div ?k < n" using k by (simp add: div_less_iff_less_mult)
  finally show ?thesis by auto
qed

section \<open>Claims\<close>




text \<open>
  C2 (as amended). For every well-formed v13 input (the palette has
  \<open>maxPaletteIdx + 1 \<le> 2 ^ 16\<close> entries, \<open>idxBits\<close> is the width the decoder computes,
  \<open>blockStates\<close> has the words that width needs and encodes only indices up to
  \<open>maxPaletteIdx\<close>, every identifier of \<open>paletteMap\<close> is below \<open>idLimit\<close>, the 16 layers the
  decoder counts into lie inside the histogram), \<open>dsci_v13\<close> unpacks the 4096 palette indices
  that \<open>blockStates\<close> encodes under the carry mode, and returns the histogram in which every
  entry \<open>i\<close> has grown by the number of cells \<open>(y_local, zx)\<close> with
  \<open>(l + y_local) * idLimit + paletteMap[paletteIdxs[zx + y_local * 256]] = i\<close>: one increment
  per cell. The layer base \<open>l\<close> is the 32-bit product \<open>ySection * 16\<close>, that is
  \<open>ySection * 16 mod 2 ^ 32\<close>, which is \<open>ySection * 16\<close> whenever \<open>ySection < 2 ^ 28\<close>.
\<close>

theorem dsci_v13_counts:
  assumes "v13_wf blockCount idLim ySection blockStates paletteMap maxPaletteIdx carry stack idxBits"
  shows "(if carry then unpack_block_idxs_wc blockStates idxBits stack
          else unpack_block_idxs_nc blockStates idxBits stack)
       = Some (unpacked_values carry blockStates (unat idxBits))
     \<and> length (unpacked_values carry blockStates (unat idxBits)) = 4096
     \<and> unat (ySection * 16) = unat ySection * 16 mod 2 ^ 32
     \<and> (unat ySection < 2 ^ 28 \<longrightarrow> unat (ySection * 16) = unat ySection * 16)
     \<and> (\<exists>h'. dsci_v13 blockCount idLim ySection blockStates paletteMap maxPaletteIdx carry stack
          = Some h'
        \<and> length h' = length blockCount
        \<and> (\<forall>i<length blockCount. h' ! i = blockCount ! i
           + of_nat (card {c \<in> {..<16} \<times> {..<256}.
               (unat (ySection * 16) + fst c) * unat idLim
                 + unat (paletteMap ! unat (unpacked_values carry blockStates (unat idxBits)
                      ! (snd c + fst c * 256))) = i})))"
proof (intro conjI impI)
  show "(if carry then unpack_block_idxs_wc blockStates idxBits stack
          else unpack_block_idxs_nc blockStates idxBits stack)
       = Some (unpacked_values carry blockStates (unat idxBits))"
    by (rule dsci_v13_incr_all(1) [OF assms])
  show "length (unpacked_values carry blockStates (unat idxBits)) = 4096"
    by (simp add: unpacked_values_def wc_out_def nc_out_def)
  show "unat (ySection * 16) = unat ySection * 16 mod 2 ^ 32"
    by (simp add: unat_word_ariths)
  show "unat (ySection * 16) = unat ySection * 16" if "unat ySection < 2 ^ 28"
    using that by (simp add: unat_word_ariths)
  show "\<exists>h'. dsci_v13 blockCount idLim ySection blockStates paletteMap maxPaletteIdx carry stack
          = Some h'
        \<and> length h' = length blockCount
        \<and> (\<forall>i<length blockCount. h' ! i = blockCount ! i
           + of_nat (card {c \<in> {..<16} \<times> {..<256}.
               (unat (ySection * 16) + fst c) * unat idLim
                 + unat (paletteMap ! unat (unpacked_values carry blockStates (unat idxBits)
                      ! (snd c + fst c * 256))) = i}))"
    by (rule dsci_v13_cells [OF assms])
qed

theorem dsci_v13_counts_witness:
  "unpack_block_idxs_wc (replicate 320 (- 1)) 5 (replicate 4096 0) = Some (replicate 4096 31)
   \<and> (\<exists>h'. dsci_v13 (replicate 320 0) 10 1 (replicate 320 (- 1)) (replicate 31 0 @ [9]) 31 True
          (replicate 4096 0) = Some h'
      \<and> length h' = 320 \<and> h' ! 169 = 256 \<and> h' ! 9 = 0)"
proof -
  note t = dsci_v13_counts [OF v13_wf_ones]
  from t [THEN conjunct1] have u: "unpack_block_idxs_wc (replicate 320 (- 1)) 5 (replicate 4096 0)
      = Some (replicate 4096 31)"
    by (simp add: unpacked_values_def wc_out_ones mask_numeral)
  let ?k = "replicate 320 (0 :: u64)"
  note t4 = t [THEN conjunct2, THEN conjunct2, THEN conjunct2, THEN conjunct2]
  from t4 [unfolded ones_layer_cells] obtain h' where h':
    "dsci_v13 ?k 10 1 (replicate 320 (- 1)) (replicate 31 0 @ [9]) 31 True (replicate 4096 0)
       = Some h'"
    "length h' = length ?k"
    "\<forall>i<length ?k. h' ! i = ?k ! i
        + of_nat (card {c \<in> {..<16} \<times> {..<256::nat}. fst c * 10 + 169 = i})"
    by blast
  have l: "(169::nat) < length ?k" "(9::nat) < length ?k" by simp_all
  from h'(3) l(1)
  have "h' ! 169 = ?k ! 169 + of_nat (card {c \<in> {..<16} \<times> {..<256::nat}. fst c * 10 + 169 = (169::nat)})"
    by blast
  then have a: "h' ! 169 = 256" unfolding layer_169_cells by simp
  from h'(3) l(2)
  have "h' ! 9 = ?k ! 9 + of_nat (card {c \<in> {..<16} \<times> {..<256::nat}. fst c * 10 + 169 = (9::nat)})"
    by blast
  then have b: "h' ! 9 = 0" unfolding layer_9_cells by simp
  from u h'(1,2) a b show ?thesis by simp
qed

text \<open>
  The claim as stated fails when \<open>ySection * 16\<close> does not fit 32 bits. For
  \<open>ySection = 2 ^ 28\<close>, \<open>idLimit = 1\<close>, a one-entry palette and a histogram of
  \<open>2 ^ 32 + 16\<close> entries, the entry the claim names for the cell \<open>(0, 0)\<close> is
  \<open>(2 ^ 28 * 16 + 0) * 1 + 0 = 2 ^ 32\<close>; the decoder leaves it at 0 and counts the 256 cells
  of the layer into entry 0.
\<close>

theorem dsci_v13_counts_counterexample:
  "v13_wf (replicate 4294967312 0) 1 0x10000000 (replicate 256 0) [0] 0 False (replicate 4096 0) 4
   \<and> (unat (0x10000000 :: u32) * 16 + 0) * unat (1 :: u32) + unat ([0 :: u32] ! 0) = 4294967296
   \<and> (\<exists>h'. dsci_v13 (replicate 4294967312 0) 1 0x10000000 (replicate 256 0) [0] 0 False
          (replicate 4096 0) = Some h'
      \<and> h' ! 4294967296 = 0 \<and> h' ! 0 = 256)"
proof -
  let ?k = "replicate 4294967312 (0 :: u64)"
  have "unat (0x10000000 * 16 :: u32) = 0" by simp
  then have wf: "v13_wf ?k 1 0x10000000 (replicate 256 0) [0] 0 False (replicate 4096 0) 4"
    by (intro v13_wf_zeros_nc) simp
  from dsci_v13_cells [OF wf, unfolded zeros_layer_cells_nc] obtain h' where h':
    "dsci_v13 ?k 1 0x10000000 (replicate 256 0) [0] 0 False (replicate 4096 0) = Some h'"
    "\<forall>i<length ?k. h' ! i = ?k ! i
        + of_nat (card {c \<in> {..<16} \<times> {..<256::nat}. fst c = i})"
    by blast
  have l: "(0::nat) < length ?k" "(4294967296::nat) < length ?k" by simp_all
  from h'(2) l(1)
  have "h' ! 0 = ?k ! 0 + of_nat (card {c \<in> {..<16} \<times> {..<256::nat}. fst c = (0::nat)})"
    by blast
  then have a: "h' ! 0 = 256" unfolding first_layer_cells by simp
  from h'(2) l(2)
  have "h' ! 4294967296
      = ?k ! 4294967296 + of_nat (card {c \<in> {..<16} \<times> {..<256::nat}. fst c = (4294967296::nat)})"
    by blast
  then have b: "h' ! 4294967296 = 0" unfolding no_layer_cells by simp
  have c: "(unat (0x10000000 :: u32) * 16 + 0) * unat (1 :: u32) + unat ([0 :: u32] ! 0) = 4294967296"
    by simp
  from wf c h'(1) a b show ?thesis by blast
qed

text \<open>
  C3. For every 16x16x128 byte array \<open>blocks\<close> and nibble-packed \<open>metadata\<close> array,
  \<open>dsci_v0\<close> returns normally and adds to every histogram entry \<open>i\<close> the number of cells
  \<open>(column, y)\<close> whose entry \<open>y * 4096 + identifier\<close> is \<open>i\<close>: each cell contributes
  exactly one increment of exactly 1, at layer \<open>y\<close>, with \<open>idLimit = 4096\<close>. The identifier
  of the cell at \<open>idx = y + column * 128\<close> is \<open>blocks[idx] * 16\<close> plus the low nibble of
  \<open>metadata[idx div 2]\<close> for even \<open>y\<close> (the low cell of a pair) and plus the high nibble for
  odd \<open>y\<close> (the paired cell at \<open>y + 1\<close>); these are the values of the two identifiers
  \<open>(blocks[idx] << 4) | low_nibble\<close> and \<open>(blocks[idx + 1] << 4) | high_nibble\<close> that the
  code forms for the pair at an even \<open>idx\<close>.
\<close>

theorem dsci_v0_counts:
  assumes "v0_wf blockCount blocks metadata"
  shows "(\<exists>h'. dsci_v0 blockCount blocks metadata = Some h' \<and> length h' = length blockCount
     \<and> (\<forall>i<length blockCount. h' ! i = blockCount ! i
           + of_nat (card {c \<in> {..<256} \<times> {..<128}. v0_cell_index blocks metadata c = i})))
     \<and> unat (v0_bid1 blocks metadata idx)
         = unat (blocks ! idx) * 16 + unat (metadata ! (idx div 2)) mod 16
     \<and> unat (v0_bid2 blocks metadata idx)
         = unat (blocks ! (idx + 1)) * 16 + unat (metadata ! (idx div 2)) div 16"
proof (intro conjI)
  show "unat (v0_bid1 blocks metadata idx)
      = unat (blocks ! idx) * 16 + unat (metadata ! (idx div 2)) mod 16"
    by (rule unat_v0_bid1)
  show "unat (v0_bid2 blocks metadata idx)
      = unat (blocks ! (idx + 1)) * 16 + unat (metadata ! (idx div 2)) div 16"
    by (rule unat_v0_bid2)
  from assms have l: "length blocks = 32768" "length metadata = 16384"
    "524288 \<le> length blockCount" by (simp_all add: v0_wf_def)
  have "\<forall>t\<in>set (map (v0_cell_index blocks metadata) v0_cells). t < length blockCount"
  proof
    fix t assume "t \<in> set (map (v0_cell_index blocks metadata) v0_cells)"
    then obtain x y where "x < 256" "y < 128" "t = y * 4096 + v0_cell_id blocks metadata x y"
      by (auto simp: set_v0_cells v0_cell_index_def)
    with v0_cell_id_less [of blocks metadata x y] l(3) show "t < length blockCount" by simp
  qed
  from incr_all_Some [OF this]
  show "\<exists>h'. dsci_v0 blockCount blocks metadata = Some h' \<and> length h' = length blockCount
     \<and> (\<forall>i<length blockCount. h' ! i = blockCount ! i
           + of_nat (card {c \<in> {..<256} \<times> {..<128}. v0_cell_index blocks metadata c = i}))"
    by (simp add: dsci_v0_incr_all l count_list_card distinct_v0_cells set_v0_cells)
qed

theorem dsci_v0_counts_witness:
  "\<exists>h'. dsci_v0 (replicate 524288 0) (replicate 32768 0) (replicate 16384 0) = Some h'
     \<and> length h' = 524288 \<and> h' ! 0 = 256"
  using dsci_v0_counts [of "replicate 524288 0" "replicate 32768 0" "replicate 16384 0" 0]
  by (auto simp: v0_wf_def v0_zero_cells)

text \<open>
  C4 (as amended). For every v2 input whose arrays have the section's sizes, \<open>dsci_v2\<close> is
  exactly the sequence of increments, one per cell \<open>(y, j)\<close> of the 16 layers of 256 cells,
  of the histogram entry \<open>(l + y) * idLimit + identifier\<close>, where the identifier is the
  concatenation \<open>add2 nibble * 65536 + add nibble * 4096 + blocks byte * 16 + metadata nibble\<close>
  (the low nibbles of slot \<open>idx\<close> for the cell at blocks index \<open>idx * 2\<close>, the high nibbles
  for the cell at \<open>idx * 2 + 1\<close>) and the layer base \<open>l\<close> is \<open>ySection * 16\<close> reduced modulo
  \<open>2 ^ 32\<close>, which is \<open>ySection * 16\<close> itself whenever \<open>ySection < 2 ^ 28\<close>. An increment
  outside the histogram is undefined (\<open>None\<close>) on both sides.
\<close>

theorem dsci_v2_cells:
  "(v2_arrays blocks add add2 metadata \<longrightarrow>
      dsci_v2 blockCount idLim ySection blocks add add2 metadata =
        incr_all (map (v2_cell_index idLim ySection blocks add add2 metadata) section_cells)
          blockCount)
   \<and> v2_cell_index idLim ySection blocks add add2 metadata (y, j) =
       (unat ySection * 16 mod 2 ^ 32 + y) * unat idLim
         + v2_cell_id blocks add add2 metadata y j
   \<and> unat (v2_bid1 blocks add add2 metadata idx) =
       unat (add2 ! idx) mod 16 * 65536 + unat (add ! idx) mod 16 * 4096
         + unat (blocks ! (idx * 2)) * 16 + unat (metadata ! idx) mod 16
   \<and> unat (v2_bid2 blocks add add2 metadata idx) =
       unat (add2 ! idx) div 16 * 65536 + unat (add ! idx) div 16 * 4096
         + unat (blocks ! (idx * 2 + 1)) * 16 + unat (metadata ! idx) div 16"
proof (intro conjI impI)
  assume "v2_arrays blocks add add2 metadata"
  then show "dsci_v2 blockCount idLim ySection blocks add add2 metadata =
      incr_all (map (v2_cell_index idLim ySection blocks add add2 metadata) section_cells)
        blockCount"
    by (rule dsci_v2_incr_all)
next
  show "v2_cell_index idLim ySection blocks add add2 metadata (y, j) =
       (unat ySection * 16 mod 2 ^ 32 + y) * unat idLim
         + v2_cell_id blocks add add2 metadata y j"
    by (simp add: v2_cell_index_def layer_index_def unat_word_ariths)
  show "unat (v2_bid1 blocks add add2 metadata idx) =
       unat (add2 ! idx) mod 16 * 65536 + unat (add ! idx) mod 16 * 4096
         + unat (blocks ! (idx * 2)) * 16 + unat (metadata ! idx) mod 16"
    by (rule unat_v2_bid1)
  show "unat (v2_bid2 blocks add add2 metadata idx) =
       unat (add2 ! idx) div 16 * 65536 + unat (add ! idx) div 16 * 4096
         + unat (blocks ! (idx * 2 + 1)) * 16 + unat (metadata ! idx) div 16"
    by (rule unat_v2_bid2)
qed

theorem dsci_v2_cells_witness:
  "\<exists>h'. dsci_v2 (replicate 16 0) 1 0 (replicate 4096 0) (replicate 2048 0) (replicate 2048 0)
       (replicate 2048 0) = Some h' \<and> length h' = 16"
proof -
  let ?f = "v2_cell_index 1 0 (replicate 4096 0) (replicate 2048 0) (replicate 2048 0)
     (replicate 2048 0)"
  have a: "v2_arrays (replicate 4096 0) (replicate 2048 0) (replicate 2048 0) (replicate 2048 0)"
    by (simp add: v2_arrays_def)
  have "\<forall>c\<in>set section_cells. ?f c < length (replicate 16 (0 :: u64))"
    by (auto simp: set_section_cells v2_cell_index_def layer_index_def v2_cell_id_zeros)
  from incr_all_cells [OF distinct_section_cells this]
    dsci_v2_cells [of "replicate 4096 0" "replicate 2048 0" "replicate 2048 0" "replicate 2048 0"
      "replicate 16 0" 1 0] a
  show ?thesis by auto
qed

text \<open>
  The claim as stated fails for \<open>ySection = 2 ^ 28\<close>, where \<open>ySection * 16\<close> wraps to 0 in
  32 bits: with \<open>idLimit = 1\<close> and an all-zero section, in a histogram that does have the
  entries of layers \<open>2 ^ 32\<close> to \<open>2 ^ 32 + 15\<close>, the 256 cells of \<open>y_local = 0\<close> are counted
  at entry 0 (layer 0) and nothing is counted at entry \<open>2 ^ 32\<close> (layer
  \<open>ySection * 16 + 0\<close>).
\<close>

theorem dsci_v2_layer_wrap_counterexample:
  "\<exists>h'. dsci_v2 (replicate 4294967312 0) 1 0x10000000 (replicate 4096 0) (replicate 2048 0)
       (replicate 2048 0) (replicate 2048 0) = Some h'
     \<and> h' ! 0 = 256 \<and> h' ! 4294967296 = 0
     \<and> (unat (0x10000000 :: u32) * 16 + 0) * unat (1 :: u32) + 0 = (4294967296 :: nat)"
proof -
  let ?f = "v2_cell_index 1 0x10000000 (replicate 4096 0) (replicate 2048 0) (replicate 2048 0)
     (replicate 2048 0)"
  let ?h = "replicate 4294967312 (0 :: u64)"
  have a: "v2_arrays (replicate 4096 0) (replicate 2048 0) (replicate 2048 0) (replicate 2048 0)"
    by (simp add: v2_arrays_def)
  have "\<forall>c\<in>set section_cells. ?f c < length ?h"
    by (auto simp: set_section_cells v2_cell_index_zeros)
  from incr_all_cells [OF distinct_section_cells this]
  obtain h' where h': "incr_all (map ?f section_cells) ?h = Some h'"
    "\<forall>i<length ?h. h' ! i = ?h ! i + of_nat (card {c \<in> set section_cells. ?f c = i})"
    by blast
  have cs: "{c \<in> set section_cells. ?f c = i} = {c \<in> {..<16} \<times> {..<256}. fst c = i}" for i
    using v2_cell_index_zeros by (auto simp: set_section_cells)
  have l: "(0::nat) < length ?h" "(4294967296::nat) < length ?h" by simp_all
  from h'(2) l(1) have "h' ! 0 = ?h ! 0 + of_nat (card {c \<in> set section_cells. ?f c = 0})"
    by blast
  then have 0: "h' ! 0 = 256" unfolding cs first_layer_cells by simp
  from h'(2) l(2)
  have "h' ! 4294967296 = ?h ! 4294967296
      + of_nat (card {c \<in> set section_cells. ?f c = 4294967296})"
    by blast
  then have 1: "h' ! 4294967296 = 0" unfolding cs no_layer_cells by simp
  from dsci_v2_incr_all [OF a, of ?h 1 "0x10000000"] h'(1) 0 1 show ?thesis by simp
qed

text \<open>
  C5 (as amended). For every \<open>maxPaletteIdx\<close> below \<open>2 ^ 31\<close> the width search of \<open>dsci_v13\<close>
  returns the smallest \<open>idxBits \<ge> 4\<close> with \<open>2 ^ idxBits \<ge> maxPaletteIdx + 1\<close>; 15 gives 4,
  16 gives 5, 255 gives 8 and 256 gives 9.
\<close>

theorem idx_bits_smallest:
  "(unat maxPaletteIdx < 2 ^ 31 \<longrightarrow>
      (\<exists>idxBits. v13_idx_bits maxPaletteIdx 4 = Some idxBits \<and> 4 \<le> unat idxBits
         \<and> unat maxPaletteIdx + 1 \<le> 2 ^ unat idxBits
         \<and> (\<forall>j. 4 \<le> j \<and> j < unat idxBits \<longrightarrow> 2 ^ j < unat maxPaletteIdx + 1)))
   \<and> v13_idx_bits 15 4 = Some 4 \<and> v13_idx_bits 16 4 = Some 5
   \<and> v13_idx_bits 255 4 = Some 8 \<and> v13_idx_bits 256 4 = Some 9"
proof (intro conjI impI)
  assume "unat maxPaletteIdx < 2 ^ 31"
  from v13_idx_bits_search [OF this, of 4 4]
  show "\<exists>idxBits. v13_idx_bits maxPaletteIdx 4 = Some idxBits \<and> 4 \<le> unat idxBits
         \<and> unat maxPaletteIdx + 1 \<le> 2 ^ unat idxBits
         \<and> (\<forall>j. 4 \<le> j \<and> j < unat idxBits \<longrightarrow> 2 ^ j < unat maxPaletteIdx + 1)"
    by auto
qed (simp_all add: v13_idx_bits.simps)

theorem idx_bits_smallest_witness:
  "\<exists>idxBits. v13_idx_bits 4095 4 = Some idxBits \<and> 4 \<le> unat idxBits
     \<and> (4096 :: nat) \<le> 2 ^ unat idxBits"
  using idx_bits_smallest [of 4095] by auto

text \<open>
  The claim as stated fails where \<open>maxPaletteIdx + 1\<close> wraps around in 32 bits: for
  \<open>maxPaletteIdx = 0xFFFFFFFF\<close> the comparison is against 0 and the width is 4, although
  \<open>2 ^ 4 < 2 ^ 32\<close>.
\<close>

theorem idx_bits_wrap_counterexample:
  "v13_idx_bits 0xFFFFFFFF 4 = Some 4
   \<and> \<not> unat (0xFFFFFFFF :: u32) + 1 \<le> 2 ^ unat (4 :: u32)"
  by (simp add: v13_idx_bits.simps)

text \<open>
  C6. For every width \<open>b\<close> in [4,16] and a 4096-entry output buffer: when the packed sequence
  has the \<open>64 * b\<close> words (with carry) or the words for 4096 values at \<open>64 div b\<close> values per
  word (no carry) that 4096 values need, each unpacker returns, and the buffer it returns
  holds exactly the 4096 values that the first bits of the stream encode (\<open>wc_out\<close>,
  \<open>nc_out\<close>): whatever the buffer held before is overwritten. The same buffer is returned
  when the input is cut after the last word that holds one of these values, when any words
  are appended, and for every long-enough sequence that agrees with the given one on the
  bits of those 4096 values: whatever follows the 4096th value, in the buffered bits or in
  further words, has no effect.
\<close>

theorem unpack_stops_at_4096:
  assumes "4 \<le> b" "b \<le> 16" "unat idxBits = b" "length unpacked = 4096"
  shows "(64 * b \<le> length packed \<longrightarrow>
      unpack_block_idxs_wc packed idxBits unpacked = Some (wc_out packed b)
      \<and> length (wc_out packed b) = 4096
      \<and> (\<forall>u. length u = 4096 \<longrightarrow> unpack_block_idxs_wc packed idxBits u = Some (wc_out packed b))
      \<and> unpack_block_idxs_wc (take (64 * b) packed) idxBits unpacked = Some (wc_out packed b)
      \<and> (\<forall>extra. unpack_block_idxs_wc (packed @ extra) idxBits unpacked = Some (wc_out packed b))
      \<and> (\<forall>packed'. 64 * b \<le> length packed'
              \<and> (\<forall>i<4096 * b. stream_bit packed' i = stream_bit packed i)
              \<longrightarrow> unpack_block_idxs_wc packed' idxBits unpacked = Some (wc_out packed b)))
    \<and> (4096 \<le> length packed * (64 div b) \<longrightarrow>
      unpack_block_idxs_nc packed idxBits unpacked = Some (nc_out packed b)
      \<and> length (nc_out packed b) = 4096
      \<and> (\<forall>u. length u = 4096 \<longrightarrow> unpack_block_idxs_nc packed idxBits u = Some (nc_out packed b))
      \<and> unpack_block_idxs_nc (take (4095 div (64 div b) + 1) packed) idxBits unpacked
          = Some (nc_out packed b)
      \<and> (\<forall>extra. unpack_block_idxs_nc (packed @ extra) idxBits unpacked = Some (nc_out packed b))
      \<and> (\<forall>packed'. 4096 \<le> length packed' * (64 div b)
              \<and> (\<forall>m<4096. \<forall>n<b. stream_bit packed' (nc_pos b m n) = stream_bit packed (nc_pos b m n))
              \<longrightarrow> unpack_block_idxs_nc packed' idxBits unpacked = Some (nc_out packed b)))"
proof -
  have b1: "1 \<le> b" "b \<le> 64" using assms(1,2) by simp_all
  have wc: "unpack_block_idxs_wc p idxBits u
      = (if 64 * b \<le> length p then Some (wc_out p b) else None)" if "length u = 4096" for p u
    using unpack_block_idxs_wc_eq [OF assms(3) b1(1) assms(2) that] by (simp add: wc_out_def)
  have nc: "unpack_block_idxs_nc p idxBits u
      = (if 4096 \<le> length p * (64 div b) then Some (nc_out p b) else None)"
    if "length u = 4096" for p u
    using unpack_block_idxs_nc_eq [OF assms(3) b1(1) assms(2) that] by (simp add: nc_out_def)
  have w: "unpack_block_idxs_wc packed idxBits unpacked = Some (wc_out packed b)
      \<and> length (wc_out packed b) = 4096
      \<and> (\<forall>u. length u = 4096 \<longrightarrow> unpack_block_idxs_wc packed idxBits u = Some (wc_out packed b))
      \<and> unpack_block_idxs_wc (take (64 * b) packed) idxBits unpacked = Some (wc_out packed b)
      \<and> (\<forall>extra. unpack_block_idxs_wc (packed @ extra) idxBits unpacked = Some (wc_out packed b))
      \<and> (\<forall>packed'. 64 * b \<le> length packed'
              \<and> (\<forall>i<4096 * b. stream_bit packed' i = stream_bit packed i)
              \<longrightarrow> unpack_block_idxs_wc packed' idxBits unpacked = Some (wc_out packed b))"
    if l: "64 * b \<le> length packed"
  proof (intro conjI allI impI)
    show "unpack_block_idxs_wc packed idxBits unpacked = Some (wc_out packed b)"
      using l by (simp add: wc assms(4))
    show "length (wc_out packed b) = 4096" by (simp add: wc_out_def)
    show "unpack_block_idxs_wc packed idxBits u = Some (wc_out packed b)"
      if "length u = 4096" for u using l that by (simp add: wc)
    show "unpack_block_idxs_wc (take (64 * b) packed) idxBits unpacked = Some (wc_out packed b)"
      using l by (simp add: wc assms(4) wc_out_take)
    show "unpack_block_idxs_wc (packed @ extra) idxBits unpacked = Some (wc_out packed b)"
      for extra using l by (simp add: wc assms(4) wc_out_append)
    show "unpack_block_idxs_wc packed' idxBits unpacked = Some (wc_out packed b)"
      if "64 * b \<le> length packed'
            \<and> (\<forall>i<4096 * b. stream_bit packed' i = stream_bit packed i)" for packed'
      using that wc_out_cong [of b packed' packed] by (simp add: wc assms(4))
  qed
  have n: "unpack_block_idxs_nc packed idxBits unpacked = Some (nc_out packed b)
      \<and> length (nc_out packed b) = 4096
      \<and> (\<forall>u. length u = 4096 \<longrightarrow> unpack_block_idxs_nc packed idxBits u = Some (nc_out packed b))
      \<and> unpack_block_idxs_nc (take (4095 div (64 div b) + 1) packed) idxBits unpacked
          = Some (nc_out packed b)
      \<and> (\<forall>extra. unpack_block_idxs_nc (packed @ extra) idxBits unpacked = Some (nc_out packed b))
      \<and> (\<forall>packed'. 4096 \<le> length packed' * (64 div b)
              \<and> (\<forall>m<4096. \<forall>n<b. stream_bit packed' (nc_pos b m n) = stream_bit packed (nc_pos b m n))
              \<longrightarrow> unpack_block_idxs_nc packed' idxBits unpacked = Some (nc_out packed b))"
    if l: "4096 \<le> length packed * (64 div b)"
  proof (intro conjI allI impI)
    show "unpack_block_idxs_nc packed idxBits unpacked = Some (nc_out packed b)"
      using l by (simp add: nc assms(4))
    show "length (nc_out packed b) = 4096" by (simp add: nc_out_def)
    show "unpack_block_idxs_nc packed idxBits u = Some (nc_out packed b)"
      if "length u = 4096" for u using l that by (simp add: nc)
    from l have "4095 div (64 div b) + 1 \<le> length packed"
      by (simp only: nc_words_needed [OF b1])
    then have "length (take (4095 div (64 div b) + 1) packed) = 4095 div (64 div b) + 1"
      by simp
    then have "4096 \<le> length (take (4095 div (64 div b) + 1) packed) * (64 div b)"
      by (simp only: nc_words_needed [OF b1])
    then show "unpack_block_idxs_nc (take (4095 div (64 div b) + 1) packed) idxBits unpacked
          = Some (nc_out packed b)"
      by (simp only: nc [OF assms(4)] nc_out_take [OF b1] if_True)
    have "4096 \<le> (length packed + length extra) * (64 div b)" for extra :: "u64 list"
      using l by (simp add: add_mult_distrib)
    then show "unpack_block_idxs_nc (packed @ extra) idxBits unpacked = Some (nc_out packed b)"
      for extra using l by (simp add: nc assms(4) nc_out_append [OF b1 l])
    show "unpack_block_idxs_nc packed' idxBits unpacked = Some (nc_out packed b)"
      if "4096 \<le> length packed' * (64 div b)
            \<and> (\<forall>m<4096. \<forall>n<b. stream_bit packed' (nc_pos b m n) = stream_bit packed (nc_pos b m n))"
      for packed'
      using that nc_out_cong [of b packed' packed] by (simp add: nc assms(4))
  qed
  from w n show ?thesis by blast
qed

theorem unpack_stops_at_4096_witness:
  "(\<exists>out. unpack_block_idxs_wc (replicate 320 7) 5 (replicate 4096 0) = Some out
       \<and> length out = 4096 \<and> out ! 0 = 7 \<and> out ! 1 = 0 \<and> out ! 12 = 16
       \<and> unpack_block_idxs_wc (replicate 320 7) 5 (replicate 4096 9) = Some out
       \<and> unpack_block_idxs_wc (replicate 320 7 @ [1, 2, 3]) 5 (replicate 4096 0) = Some out)
   \<and> (\<exists>out. unpack_block_idxs_nc (replicate 342 7) 5 (replicate 4096 0) = Some out
       \<and> length out = 4096 \<and> out ! 0 = 7 \<and> out ! 1 = 0 \<and> out ! 12 = 7
       \<and> unpack_block_idxs_nc (replicate 342 7) 5 (replicate 4096 9) = Some out
       \<and> unpack_block_idxs_nc (replicate 342 7 @ [1, 2, 3]) 5 (replicate 4096 0) = Some out)"
proof -
  let ?w = "wc_out (replicate 320 7) 5" and ?n = "nc_out (replicate 342 7) 5"
  have vw: "wc_value (replicate 320 7) 5 0 = 7" "wc_value (replicate 320 7) 5 1 = 0"
    "wc_value (replicate 320 7) 5 12 = 16"
    by code_simp+
  have vn: "nc_value (replicate 342 7) 5 0 = 7" "nc_value (replicate 342 7) 5 1 = 0"
    "nc_value (replicate 342 7) 5 12 = 7"
    by code_simp+
  from unpack_stops_at_4096 [of 5 5 "replicate 4096 0" "replicate 320 7"]
  have w: "unpack_block_idxs_wc (replicate 320 7) 5 (replicate 4096 0) = Some ?w"
    "length ?w = 4096"
    "\<forall>u. length u = 4096 \<longrightarrow> unpack_block_idxs_wc (replicate 320 7) 5 u = Some ?w"
    "\<forall>extra. unpack_block_idxs_wc (replicate 320 7 @ extra) 5 (replicate 4096 0) = Some ?w"
    by simp_all
  from unpack_stops_at_4096 [of 5 5 "replicate 4096 0" "replicate 342 7"]
  have n: "unpack_block_idxs_nc (replicate 342 7) 5 (replicate 4096 0) = Some ?n"
    "length ?n = 4096"
    "\<forall>u. length u = 4096 \<longrightarrow> unpack_block_idxs_nc (replicate 342 7) 5 u = Some ?n"
    "\<forall>extra. unpack_block_idxs_nc (replicate 342 7 @ extra) 5 (replicate 4096 0) = Some ?n"
    by simp_all
  have "?w ! 0 = 7" "?w ! 1 = 0" "?w ! 12 = 16" using vw by (simp_all add: wc_out_def)
  moreover have "?n ! 0 = 7" "?n ! 1 = 0" "?n ! 12 = 7" using vn by (simp_all add: nc_out_def)
  ultimately show ?thesis using w n by simp
qed

text \<open>
  C7. For every well-formed input each decoder returns normally, and the sum over all
  histogram entries of (value after the call minus value before the call), the difference
  taken in the counters' 64-bit arithmetic, is the section's cell count: 32768 for
  \<open>dsci_v0\<close>, 4096 for \<open>dsci_v2\<close> and \<open>dsci_v13\<close>. When no counter can wrap around, the sum
  of the counters after the call is the sum before plus the cell count. Well-formed means:
  arrays of the section's sizes, every identifier below \<open>idLimit\<close>, and a histogram that
  holds the 16 layers the call counts into (128 layers of 4096 for \<open>dsci_v0\<close>).
\<close>

theorem histogram_conservation:
  "(v0_wf blockCount blocks metadata \<longrightarrow>
      (\<exists>h'. dsci_v0 blockCount blocks metadata = Some h' \<and> length h' = length blockCount
         \<and> (\<Sum>i<length blockCount. unat (h' ! i - blockCount ! i)) = 16 * 16 * 128
         \<and> ((\<forall>i<length blockCount. unat (blockCount ! i) + 32768 < 2 ^ 64) \<longrightarrow>
              (\<Sum>i<length blockCount. unat (h' ! i))
                = (\<Sum>i<length blockCount. unat (blockCount ! i)) + 16 * 16 * 128)))
   \<and> (v2_wf blockCount idLim ySection blocks add add2 metadata \<longrightarrow>
      (\<exists>h'. dsci_v2 blockCount idLim ySection blocks add add2 metadata = Some h'
         \<and> length h' = length blockCount
         \<and> (\<Sum>i<length blockCount. unat (h' ! i - blockCount ! i)) = 4096
         \<and> ((\<forall>i<length blockCount. unat (blockCount ! i) + 4096 < 2 ^ 64) \<longrightarrow>
              (\<Sum>i<length blockCount. unat (h' ! i))
                = (\<Sum>i<length blockCount. unat (blockCount ! i)) + 4096)))
   \<and> (v13_wf blockCount idLim ySection blockStates paletteMap maxPaletteIdx carry stack idxBits \<longrightarrow>
      (\<exists>h'. dsci_v13 blockCount idLim ySection blockStates paletteMap maxPaletteIdx carry stack
           = Some h'
         \<and> length h' = length blockCount
         \<and> (\<Sum>i<length blockCount. unat (h' ! i - blockCount ! i)) = 4096
         \<and> ((\<forall>i<length blockCount. unat (blockCount ! i) + 4096 < 2 ^ 64) \<longrightarrow>
              (\<Sum>i<length blockCount. unat (h' ! i))
                = (\<Sum>i<length blockCount. unat (blockCount ! i)) + 4096)))"
proof (intro conjI impI)
  assume wf: "v0_wf blockCount blocks metadata"
  then have l: "length blocks = 32768" "length metadata = 16384"
    "524288 \<le> length blockCount" by (simp_all add: v0_wf_def)
  let ?f = "v0_cell_index blocks metadata"
  have t: "\<forall>c\<in>set v0_cells. ?f c < length blockCount"
    using v0_targets [of _ blocks metadata] l(3) by fastforce
  have n: "length v0_cells < 2 ^ 64" by (simp add: length_v0_cells)
  from incr_all_total [OF distinct_v0_cells t n]
  obtain h' where h': "incr_all (map ?f v0_cells) blockCount = Some h'"
    "length h' = length blockCount"
    "(\<Sum>i<length blockCount. unat (h' ! i - blockCount ! i)) = length v0_cells"
    by blast
  have "(\<Sum>i<length blockCount. unat (h' ! i))
      = (\<Sum>i<length blockCount. unat (blockCount ! i)) + 16 * 16 * 128"
    if "\<forall>i<length blockCount. unat (blockCount ! i) + 32768 < 2 ^ 64"
    using incr_all_sums [OF distinct_v0_cells t n] that h'(1)
    by (simp add: length_v0_cells)
  with h' show "\<exists>h'. dsci_v0 blockCount blocks metadata = Some h' \<and> length h' = length blockCount
         \<and> (\<Sum>i<length blockCount. unat (h' ! i - blockCount ! i)) = 16 * 16 * 128
         \<and> ((\<forall>i<length blockCount. unat (blockCount ! i) + 32768 < 2 ^ 64) \<longrightarrow>
              (\<Sum>i<length blockCount. unat (h' ! i))
                = (\<Sum>i<length blockCount. unat (blockCount ! i)) + 16 * 16 * 128)"
    by (intro exI [of _ h']) (simp add: dsci_v0_incr_all [OF l(1,2)] length_v0_cells)
next
  assume wf: "v2_wf blockCount idLim ySection blocks add add2 metadata"
  then have a: "v2_arrays blocks add add2 metadata"
    and bound: "(unat (ySection * 16) + 16) * unat idLim \<le> length blockCount"
    by (simp_all add: v2_wf_def)
  let ?f = "v2_cell_index idLim ySection blocks add add2 metadata"
  have t: "\<forall>c\<in>set section_cells. ?f c < length blockCount"
    using v2_targets [OF wf] section_region_less [OF _ bound] by blast
  have n: "length section_cells < 2 ^ 64" by (simp add: length_section_cells)
  from incr_all_total [OF distinct_section_cells t n]
  obtain h' where h': "incr_all (map ?f section_cells) blockCount = Some h'"
    "length h' = length blockCount"
    "(\<Sum>i<length blockCount. unat (h' ! i - blockCount ! i)) = length section_cells"
    by blast
  have "(\<Sum>i<length blockCount. unat (h' ! i))
      = (\<Sum>i<length blockCount. unat (blockCount ! i)) + 4096"
    if "\<forall>i<length blockCount. unat (blockCount ! i) + 4096 < 2 ^ 64"
    using incr_all_sums [OF distinct_section_cells t n] that h'(1)
    by (simp add: length_section_cells)
  with h' show "\<exists>h'. dsci_v2 blockCount idLim ySection blocks add add2 metadata = Some h'
         \<and> length h' = length blockCount
         \<and> (\<Sum>i<length blockCount. unat (h' ! i - blockCount ! i)) = 4096
         \<and> ((\<forall>i<length blockCount. unat (blockCount ! i) + 4096 < 2 ^ 64) \<longrightarrow>
              (\<Sum>i<length blockCount. unat (h' ! i))
                = (\<Sum>i<length blockCount. unat (blockCount ! i)) + 4096)"
    by (intro exI [of _ h']) (simp add: dsci_v2_incr_all [OF a] length_section_cells)
next
  assume wf: "v13_wf blockCount idLim ySection blockStates paletteMap maxPaletteIdx carry stack idxBits"
  then have bound: "(unat (ySection * 16) + 16) * unat idLim \<le> length blockCount"
    by (simp add: v13_wf_def)
  let ?f = "v13_cell_index idLim ySection paletteMap
      (unpacked_values carry blockStates (unat idxBits))"
  have t: "\<forall>c\<in>set section_cells. ?f c < length blockCount"
    using v13_targets [OF wf] section_region_less [OF _ bound] by blast
  have n: "length section_cells < 2 ^ 64" by (simp add: length_section_cells)
  from incr_all_total [OF distinct_section_cells t n]
  obtain h' where h': "incr_all (map ?f section_cells) blockCount = Some h'"
    "length h' = length blockCount"
    "(\<Sum>i<length blockCount. unat (h' ! i - blockCount ! i)) = length section_cells"
    by blast
  have "(\<Sum>i<length blockCount. unat (h' ! i))
      = (\<Sum>i<length blockCount. unat (blockCount ! i)) + 4096"
    if "\<forall>i<length blockCount. unat (blockCount ! i) + 4096 < 2 ^ 64"
    using incr_all_sums [OF distinct_section_cells t n] that h'(1)
    by (simp add: length_section_cells)
  with h' show "\<exists>h'. dsci_v13 blockCount idLim ySection blockStates paletteMap maxPaletteIdx
           carry stack = Some h'
         \<and> length h' = length blockCount
         \<and> (\<Sum>i<length blockCount. unat (h' ! i - blockCount ! i)) = 4096
         \<and> ((\<forall>i<length blockCount. unat (blockCount ! i) + 4096 < 2 ^ 64) \<longrightarrow>
              (\<Sum>i<length blockCount. unat (h' ! i))
                = (\<Sum>i<length blockCount. unat (blockCount ! i)) + 4096)"
    by (intro exI [of _ h']) (simp add: dsci_v13_incr_all(2) [OF wf] length_section_cells)
qed

theorem histogram_conservation_witness:
  "(\<exists>h'. dsci_v0 (replicate 524288 0) (replicate 32768 0) (replicate 16384 0) = Some h'
      \<and> (\<Sum>i<524288. unat (h' ! i - replicate 524288 0 ! i)) = 32768)
   \<and> (\<exists>h'. dsci_v2 (replicate 16 0) 1 0 (replicate 4096 0) (replicate 2048 0)
        (replicate 2048 0) (replicate 2048 0) = Some h'
      \<and> (\<Sum>i<16. unat (h' ! i - replicate 16 0 ! i)) = 4096)
   \<and> (\<exists>h'. dsci_v13 (replicate 16 0) 1 0 (replicate 256 0) [0] 0 True (replicate 4096 0) = Some h'
      \<and> (\<Sum>i<16. unat (h' ! i - replicate 16 0 ! i)) = 4096)"
proof -
  have 2: "v2_wf (replicate 16 0) 1 0 (replicate 4096 0) (replicate 2048 0) (replicate 2048 0)
     (replicate 2048 0)"
    by (rule v2_wf_example) simp_all
  have 13: "v13_wf (replicate 16 0) 1 0 (replicate 256 0) [0] 0 True (replicate 4096 0) 4"
    by (rule v13_wf_example) simp
  from histogram_conservation [THEN conjunct1, THEN mp, OF v0_wf_example]
  have "\<exists>h'. dsci_v0 (replicate 524288 0) (replicate 32768 0) (replicate 16384 0) = Some h'
      \<and> (\<Sum>i<524288. unat (h' ! i - replicate 524288 0 ! i)) = 32768"
    by auto
  moreover
  from histogram_conservation [THEN conjunct2, THEN conjunct1, THEN mp, OF 2]
  have "\<exists>h'. dsci_v2 (replicate 16 0) 1 0 (replicate 4096 0) (replicate 2048 0)
        (replicate 2048 0) (replicate 2048 0) = Some h'
      \<and> (\<Sum>i<16. unat (h' ! i - replicate 16 0 ! i)) = 4096"
    by auto
  moreover
  from histogram_conservation [THEN conjunct2, THEN conjunct2, THEN mp, OF 13]
  have "\<exists>h'. dsci_v13 (replicate 16 0) 1 0 (replicate 256 0) [0] 0 True (replicate 4096 0) = Some h'
      \<and> (\<Sum>i<16. unat (h' ! i - replicate 16 0 ! i)) = 4096"
    by auto
  ultimately show ?thesis by blast
qed

text \<open>
  C8. For every width above 16 both unpackers return at once and leave the output buffer as
  it was; the return is an ordinary return, there is no error value. For every width of at
  most 16 (given 1024 input words, which is enough for every such width, and a 4096-entry
  buffer) both unpackers overwrite the whole buffer: the returned buffer is the same
  whatever the buffer held before. So a width above 16 is the only width for which no output
  is produced.
\<close>

theorem unpack_width_guard:
  "(16 < idxBits \<longrightarrow>
      unpack_block_idxs_wc packed idxBits unpacked = Some unpacked
      \<and> unpack_block_idxs_nc packed idxBits unpacked = Some unpacked)
   \<and> (idxBits \<le> 16 \<and> 1024 \<le> length packed \<and> length unpacked = 4096 \<longrightarrow>
      (\<exists>out. length out = 4096
         \<and> (\<forall>u. length u = 4096 \<longrightarrow> unpack_block_idxs_wc packed idxBits u = Some out))
      \<and> (\<exists>out. length out = 4096
         \<and> (\<forall>u. length u = 4096 \<longrightarrow> unpack_block_idxs_nc packed idxBits u = Some out)))"
proof (intro conjI impI)
  assume "16 < idxBits"
  then show "unpack_block_idxs_wc packed idxBits unpacked = Some unpacked"
    and "unpack_block_idxs_nc packed idxBits unpacked = Some unpacked"
    by (simp_all add: unpack_block_idxs_wc_def unpack_block_idxs_nc_def)
next
  assume a: "idxBits \<le> 16 \<and> 1024 \<le> length packed \<and> length unpacked = 4096"
  then show "\<exists>out. length out = 4096
      \<and> (\<forall>u. length u = 4096 \<longrightarrow> unpack_block_idxs_wc packed idxBits u = Some out)"
    by (intro exI [of _ "wc_out packed (unat idxBits)"])
      (simp add: unpack_wc_any_width wc_out_def)
  from a show "\<exists>out. length out = 4096
      \<and> (\<forall>u. length u = 4096 \<longrightarrow> unpack_block_idxs_nc packed idxBits u = Some out)"
    by (intro exI [of _ "nc_out packed (unat idxBits)"])
      (simp add: unpack_nc_any_width nc_out_def)
qed

theorem unpack_width_guard_witness:
  "unpack_block_idxs_wc (replicate 1024 3) 17 (replicate 4096 9) = Some (replicate 4096 9)
   \<and> unpack_block_idxs_nc (replicate 1024 3) 17 (replicate 4096 9) = Some (replicate 4096 9)
   \<and> (\<exists>out. length out = 4096
        \<and> unpack_block_idxs_wc (replicate 1024 3) 16 (replicate 4096 9) = Some out
        \<and> unpack_block_idxs_wc (replicate 1024 3) 16 (replicate 4096 1) = Some out)
   \<and> (\<exists>out. length out = 4096
        \<and> unpack_block_idxs_nc (replicate 1024 3) 16 (replicate 4096 9) = Some out
        \<and> unpack_block_idxs_nc (replicate 1024 3) 16 (replicate 4096 1) = Some out)"
proof -
  have g: "(16 :: u32) < 17" "(16 :: u32) \<le> 16" by simp_all
  from unpack_width_guard [of 17 "replicate 1024 3" "replicate 4096 9"] g(1)
  have 1: "unpack_block_idxs_wc (replicate 1024 3) 17 (replicate 4096 9) = Some (replicate 4096 9)"
    "unpack_block_idxs_nc (replicate 1024 3) 17 (replicate 4096 9) = Some (replicate 4096 9)"
    by simp_all
  from unpack_width_guard [of 16 "replicate 1024 3" "replicate 4096 9"] g(2)
  obtain o1 o2 where o: "length o1 = 4096"
    "\<forall>u. length u = 4096 \<longrightarrow> unpack_block_idxs_wc (replicate 1024 3) 16 u = Some o1"
    "length o2 = 4096"
    "\<forall>u. length u = 4096 \<longrightarrow> unpack_block_idxs_nc (replicate 1024 3) 16 u = Some o2"
    by auto
  from o(2) have "unpack_block_idxs_wc (replicate 1024 3) 16 (replicate 4096 9) = Some o1"
    "unpack_block_idxs_wc (replicate 1024 3) 16 (replicate 4096 1) = Some o1" by simp_all
  moreover from o(4) have "unpack_block_idxs_nc (replicate 1024 3) 16 (replicate 4096 9) = Some o2"
    "unpack_block_idxs_nc (replicate 1024 3) 16 (replicate 4096 1) = Some o2" by simp_all
  ultimately show ?thesis using 1 o(1,3) by blast
qed




text \<open>
  C10. For the bit widths 4, 8 and 16, \<open>unpack_block_idxs_wc\<close> and \<open>unpack_block_idxs_nc\<close> give
  the same result on every packed word sequence (the same 4096 values, or both read past the
  end of a sequence that is too short), so \<open>dsci_v13\<close> gives the same histogram for both
  settings of its carry flag whenever the width it computes is one of these.
\<close>

theorem carry_modes_agree:
  assumes "unat idxBits \<in> {4, 8, 16}" "length stack = 4096"
  shows "unpack_block_idxs_wc packed idxBits stack = unpack_block_idxs_nc packed idxBits stack
     \<and> (v13_idx_bits maxPaletteIdx 4 = Some idxBits \<longrightarrow>
          dsci_v13 blockCount idLim ySection packed paletteMap maxPaletteIdx True stack
        = dsci_v13 blockCount idLim ySection packed paletteMap maxPaletteIdx False stack)"
  using unpack_wc_eq_nc [OF assms, of packed] by (simp add: dsci_v13_def)

theorem carry_modes_agree_witness:
  "unpack_block_idxs_wc (replicate 512 5) 8 (replicate 4096 0)
     = unpack_block_idxs_nc (replicate 512 5) 8 (replicate 4096 0)
   \<and> dsci_v13 (replicate 65536 0) 4096 0 (replicate 512 5) (map of_nat [0..<256]) 255 True
        (replicate 4096 0)
     = dsci_v13 (replicate 65536 0) 4096 0 (replicate 512 5) (map of_nat [0..<256]) 255 False
        (replicate 4096 0)"
  using carry_modes_agree [of 8 "replicate 4096 0" "replicate 512 5" 255 "replicate 65536 0"
      4096 0 "map of_nat [0..<256]"] v13_idx_bits_255
  by simp

end
